theory Spec2Isabelle
  imports Main "HOL-Library.Word"
begin

section \<open>The storage model of \<open>vector2d\<close>\<close>

text \<open>
  \<open>vector2d<T>\<close> keeps every row in one \<open>std::vector<T> m_data\<close>; a \<open>row_type\<close> is the
  triple \<open>m_begin_index\<close>, \<open>m_size\<close>, \<open>m_capacity\<close> of \<open>size_t\<close> fields plus a pointer to its
  container.  \<open>size_t\<close> is taken as the 64-bit unsigned word, so \<open>+\<close> and \<open>-\<close> wrap.
  The buffer is a list.  Element values are plain data: \<open>std::move\<close> is a copy and the
  allocator's \<open>destroy\<close> leaves the stored value alone, so the only thing a \<open>destroy\<close>
  call contributes is the dereference of its argument.

  An operation returns \<open>Inl e\<close> where the C++ leaves the normal path:
  \<^item> \<open>OutOfRange\<close>: a \<open>throw std::out_of_range\<close> of a position check;
  \<^item> \<open>InvalidRange\<close>: the \<open>throw\<close> behind the test \<open>range < 0\<close>;
  \<^item> \<open>LengthError\<close>: \<open>std::length_error\<close> of \<open>std::vector\<close> growing beyond \<open>max_size()\<close>;
  \<^item> \<open>Undefined\<close>: an unchecked access outside the vector (\<open>operator[]\<close>, a dereferenced
    iterator), which C++ leaves undefined.
  Allocation failure (\<open>std::bad_alloc\<close>) is not modelled.
\<close>

type_synonym size_t = "64 word"

datatype error = OutOfRange | InvalidRange | LengthError | Undefined

record row_type =
  m_begin_index :: size_t
  m_size :: size_t
  m_capacity :: size_t

record 'a vector2d =
  m_rows :: "row_type list"
  m_data :: "'a list"

definition and_then :: "error + 'a \<Rightarrow> ('a \<Rightarrow> error + 'b) \<Rightarrow> error + 'b" where
  "and_then m f = (case m of Inl e \<Rightarrow> Inl e | Inr x \<Rightarrow> f x)"

subsection \<open>The \<open>std::vector\<close> operations the code uses\<close>

text \<open>\<open>std::vector<T>::max_size()\<close> is the library's constant; the largest value a
  64-bit implementation reports is \<open>PTRDIFF_MAX\<close>.\<close>

definition max_size :: nat where
  "max_size = 2 ^ 63 - 1"

text \<open>\<open>m_data.size()\<close> as a \<open>size_t\<close>.\<close>

definition data_size :: "'a list \<Rightarrow> size_t" where
  "data_size d = of_nat (length d)"

text \<open>\<open>m_data[i]\<close> read and written, unchecked in C++.\<close>

definition get :: "'a list \<Rightarrow> size_t \<Rightarrow> error + 'a" where
  "get d i = (if unat i < length d then Inr (d ! unat i) else Inl Undefined)"

definition put :: "'a list \<Rightarrow> size_t \<Rightarrow> 'a \<Rightarrow> error + 'a list" where
  "put d i v = (if unat i < length d then Inr (d[unat i := v]) else Inl Undefined)"

text \<open>\<open>m_data.resize(n, value)\<close>.\<close>

definition vec_resize :: "'a list \<Rightarrow> size_t \<Rightarrow> 'a \<Rightarrow> error + 'a list" where
  "vec_resize d n v =
     (if unat n \<le> length d then Inr (take (unat n) d)
      else if max_size < unat n then Inl LengthError
      else Inr (d @ replicate (unat n - length d) v))"

text \<open>\<open>m_data.emplace_back(value)\<close>.\<close>

definition emplace_back :: "'a list \<Rightarrow> 'a \<Rightarrow> error + 'a list" where
  "emplace_back d v = (if max_size \<le> length d then Inl LengthError else Inr (d @ [v]))"

text \<open>\<open>m_data.reserve(n)\<close>: no change of the content.\<close>

definition vec_reserve :: "'a list \<Rightarrow> size_t \<Rightarrow> error + 'a list" where
  "vec_reserve d n = (if max_size < unat n then Inl LengthError else Inr d)"

subsection \<open>The private helpers of \<open>vector2d\<close>\<close>

text \<open>\<open>append(count, value)\<close> is \<open>m_data.resize(m_data.size() + count, value)\<close>; the sum is
  a \<open>size_t\<close> sum.\<close>

definition append_data :: "'a list \<Rightarrow> size_t \<Rightarrow> 'a \<Rightarrow> error + 'a list" where
  "append_data d count v = vec_resize d (data_size d + count) v"

text \<open>\<open>static_cast<int>\<close> of a \<open>size_t\<close>: the low 32 bits, read as two's complement.\<close>

definition to_int :: "size_t \<Rightarrow> int" where
  "to_int w = sint (ucast w :: 32 word)"

text \<open>\<open>move_desc\<close>: \<open>for (int i = static_cast<int>(iend - ibegin); i >= 0; --i)
  m_data[new_ibegin + i] = std::move(m_data[ibegin + i])\<close>.  The loop function takes the
  number of iterations left; with \<open>Suc n\<close> left the counter \<open>i\<close> is \<open>n\<close>.\<close>

fun move_desc_loop :: "'a list \<Rightarrow> size_t \<Rightarrow> size_t \<Rightarrow> nat \<Rightarrow> error + 'a list" where
  "move_desc_loop d ibegin new_ibegin 0 = Inr d"
| "move_desc_loop d ibegin new_ibegin (Suc n) =
     and_then (get d (ibegin + of_nat n)) (\<lambda>x.
     and_then (put d (new_ibegin + of_nat n) x) (\<lambda>d'.
     move_desc_loop d' ibegin new_ibegin n))"

definition move_desc :: "'a list \<Rightarrow> size_t \<Rightarrow> size_t \<Rightarrow> size_t \<Rightarrow> error + 'a list" where
  "move_desc d ibegin iend new_ibegin =
     (let c = to_int (iend - ibegin)
      in if c < 0 then Inr d else move_desc_loop d ibegin new_ibegin (Suc (nat c)))"

text \<open>\<open>move_asc\<close>: \<open>for (int i = 0; i < static_cast<int>(iend - ibegin); ++i)
  m_data[new_ibegin + i] = std::move(m_data[ibegin + i])\<close>.  The loop function takes the
  counter \<open>i\<close> and the number of iterations left.\<close>

fun move_asc_loop :: "'a list \<Rightarrow> size_t \<Rightarrow> size_t \<Rightarrow> nat \<Rightarrow> nat \<Rightarrow> error + 'a list" where
  "move_asc_loop d ibegin new_ibegin i 0 = Inr d"
| "move_asc_loop d ibegin new_ibegin i (Suc n) =
     and_then (get d (ibegin + of_nat i)) (\<lambda>x.
     and_then (put d (new_ibegin + of_nat i) x) (\<lambda>d'.
     move_asc_loop d' ibegin new_ibegin (Suc i) n))"

definition move_asc :: "'a list \<Rightarrow> size_t \<Rightarrow> size_t \<Rightarrow> size_t \<Rightarrow> error + 'a list" where
  "move_asc d ibegin iend new_ibegin =
     (let c = to_int (iend - ibegin)
      in if c \<le> 0 then Inr d else move_asc_loop d ibegin new_ibegin 0 (nat c))"

text \<open>A loop \<open>for (it = from; it != to; ++it) destroy(*it)\<close> over iterators of \<open>m_data\<close>,
  an iterator being its offset from \<open>m_data.begin()\<close>.  The values stay; the dereference
  must be inside the vector.\<close>

function destroy_loop :: "'a list \<Rightarrow> nat \<Rightarrow> nat \<Rightarrow> error + 'a list" where
  "destroy_loop d it to =
     (if it = to then Inr d
      else if it < length d then destroy_loop d (Suc it) to
      else Inl Undefined)"
  by pat_completeness auto
termination
  by (relation "measure (\<lambda>(d, it, to). length d - it)") auto

subsection \<open>\<open>row_type\<close>\<close>

text \<open>A row method runs on the buffer of the row's container and on the row itself.\<close>

definition begin_index :: "row_type \<Rightarrow> size_t" where
  "begin_index r = m_begin_index r"

definition end_index :: "row_type \<Rightarrow> size_t" where
  "end_index r = m_begin_index r + m_size r"

text \<open>\<open>begin()\<close> and \<open>end()\<close> as offsets from \<open>m_data.begin()\<close>.\<close>

definition row_begin :: "row_type \<Rightarrow> nat" where
  "row_begin r = unat (m_begin_index r)"

definition row_end :: "row_type \<Rightarrow> nat" where
  "row_end r = unat (m_begin_index r) + unat (m_size r)"

definition empty_row :: "row_type \<Rightarrow> bool" where
  "empty_row r = (m_size r = 0)"

definition shrink_to_fit :: "row_type \<Rightarrow> row_type" where
  "shrink_to_fit r = r\<lparr>m_capacity := m_size r\<rparr>"

definition update :: "size_t \<Rightarrow> size_t \<Rightarrow> row_type \<Rightarrow> row_type" where
  "update ibegin sz r =
     \<lparr>m_begin_index = ibegin, m_size = sz, m_capacity = max sz (m_capacity r)\<rparr>"

text \<open>\<open>clear()\<close>: \<open>m_size\<close> is set to 0 before the destroy loop runs from \<open>begin()\<close> to
  \<open>end()\<close>.\<close>

definition clear :: "'a list \<Rightarrow> row_type \<Rightarrow> error + ('a list \<times> row_type)" where
  "clear d r =
     (if empty_row r then Inr (d, r)
      else let r' = r\<lparr>m_size := 0\<rparr>
           in and_then (destroy_loop d (row_begin r') (row_end r')) (\<lambda>d'. Inr (d', r')))"

text \<open>\<open>pop_back()\<close>: \<open>destroy(*(end() - 1))\<close>, then \<open>update(begin_index(), size() - 1)\<close>.\<close>

definition pop_back :: "'a list \<Rightarrow> row_type \<Rightarrow> error + ('a list \<times> row_type)" where
  "pop_back d r =
     (if 0 < row_end r \<and> row_end r - 1 < length d
      then Inr (d, update (begin_index r) (m_size r - 1) r)
      else Inl Undefined)"

text \<open>\<open>reserve(size)\<close>; \<open>dv\<close> is \<open>T()\<close>.\<close>

definition reserve :: "'a \<Rightarrow> size_t \<Rightarrow> 'a list \<Rightarrow> row_type \<Rightarrow> error + ('a list \<times> row_type)" where
  "reserve dv sz d r =
     (if sz \<le> m_capacity r then Inr (d, r)
      else if row_end r \<noteq> length d then
        and_then (append_data d sz dv) (\<lambda>d1.
        and_then (move_desc d1 (begin_index r) (begin_index r + m_capacity r - 1)
                    (data_size d1 - sz)) (\<lambda>d2.
        Inr (d2, (update (data_size d2 - sz) (m_size r) r)\<lparr>m_capacity := sz\<rparr>)))
      else
        and_then (append_data d (sz - m_size r) dv) (\<lambda>d1.
        Inr (d1, r\<lparr>m_capacity := sz\<rparr>)))"

text \<open>The loop \<open>for (it = first; it != last; ++it) m_data[base + (it - first)] = *it\<close> of
  \<open>insert\<close>, over the elements of the inserted range; \<open>k\<close> is \<open>it - first\<close>.\<close>

fun write_range :: "'a list \<Rightarrow> size_t \<Rightarrow> nat \<Rightarrow> 'a list \<Rightarrow> error + 'a list" where
  "write_range d base k [] = Inr d"
| "write_range d base k (x # xs) =
     and_then (put d (base + of_nat k) x) (\<lambda>d'. write_range d' base (Suc k) xs)"

text \<open>\<open>insert(pos, first, last)\<close>.  \<open>pos\<close> is an iterator of \<open>m_data\<close>; the range
  \<open>[first, last)\<close> is given by its elements \<open>xs\<close>, so \<open>last - first\<close> is their number.
  The result carries the returned iterator.\<close>

definition insert_range ::
  "'a \<Rightarrow> nat \<Rightarrow> 'a list \<Rightarrow> 'a list \<Rightarrow> row_type \<Rightarrow> error + ('a list \<times> row_type \<times> nat)" where
  "insert_range dv pos xs d r =
     (let diff = (of_nat pos - of_nat (row_begin r) :: size_t) in
      if diff > m_size r \<or> diff < 0 then Inl OutOfRange
      else let range = (of_nat (length xs) :: size_t) in
      if range < 0 then Inl InvalidRange
      else if range = 0 then Inr (d, r, row_begin r + unat diff)
      else if m_size r + range \<le> m_capacity r then
        and_then (move_desc d (begin_index r + diff) (end_index r - 1)
                    (begin_index r + diff + range)) (\<lambda>d1.
        and_then (write_range d1 (begin_index r + diff) 0 xs) (\<lambda>d2.
        let r' = update (begin_index r) (m_size r + range) r
        in Inr (d2, r', row_begin r' + unat diff)))
      else if row_end r \<noteq> length d then
        and_then (append_data d (m_size r + range) dv) (\<lambda>d1.
        and_then (move_desc d1 (begin_index r) (begin_index r + diff - 1)
                    (data_size d1 - m_size r - range)) (\<lambda>d2.
        and_then (write_range d2 (data_size d2 - m_size r - range + diff) 0 xs) (\<lambda>d3.
        and_then (move_desc d3 (begin_index r + diff) (end_index r - 1)
                    (data_size d3 - m_size r + diff)) (\<lambda>d4.
        let r' = update (data_size d4 - m_size r - range) (m_size r + range) r
        in Inr (d4, r', row_begin r' + unat diff)))))
      else
        and_then (append_data d range dv) (\<lambda>d1.
        and_then (move_desc d1 (begin_index r + diff) (end_index r - 1)
                    (begin_index r + diff + range)) (\<lambda>d2.
        and_then (write_range d2 (begin_index r + diff) 0 xs) (\<lambda>d3.
        let r' = update (begin_index r) (m_size r + range) r
        in Inr (d3, r', row_begin r' + unat diff)))))"

text \<open>\<open>insert(pos, value)\<close>: the range form with a one-element array.\<close>

definition insert_value ::
  "'a \<Rightarrow> nat \<Rightarrow> 'a \<Rightarrow> 'a list \<Rightarrow> row_type \<Rightarrow> error + ('a list \<times> row_type \<times> nat)" where
  "insert_value dv pos v d r = insert_range dv pos [v] d r"

text \<open>\<open>erase(first, last)\<close>, both iterators of \<open>m_data\<close> (\<open>ifirst\<close>, \<open>ilast\<close>).\<close>

definition erase_range ::
  "nat \<Rightarrow> nat \<Rightarrow> 'a list \<Rightarrow> row_type \<Rightarrow> error + ('a list \<times> row_type \<times> nat)" where
  "erase_range ifirst ilast d r =
     (let fdiff = (of_nat ifirst - of_nat (row_begin r) :: size_t) in
      if fdiff > m_size r \<or> fdiff < 0 then Inl OutOfRange
      else let ldiff = (of_nat ilast - of_nat (row_begin r) :: size_t) in
      if ldiff > m_size r \<or> ldiff < 0 then Inl OutOfRange
      else let range = (of_nat ilast - of_nat ifirst :: size_t) in
      if range < 0 then Inl InvalidRange
      else if range = 0 then Inr (d, r, row_begin r + unat ldiff)
      else
        and_then (destroy_loop d (row_begin r + unat fdiff) (row_begin r + unat ldiff)) (\<lambda>d1.
        and_then (move_asc d1 (begin_index r + ldiff) (end_index r)
                    (begin_index r + ldiff - range)) (\<lambda>d2.
        let r' = update (begin_index r) (m_size r - range) r
        in Inr (d2, r', row_begin r' + unat fdiff))))"

text \<open>\<open>erase(pos)\<close>.\<close>

definition erase_pos :: "nat \<Rightarrow> 'a list \<Rightarrow> row_type \<Rightarrow> error + ('a list \<times> row_type \<times> nat)" where
  "erase_pos pos d r =
     (let diff = (of_nat pos - of_nat (row_begin r) :: size_t)
      in erase_range (row_begin r + unat diff) (row_begin r + unat diff + 1) d r)"

text \<open>\<open>push_back(value)\<close>; \<open>dv\<close> is \<open>T()\<close>.\<close>

definition push_back :: "'a \<Rightarrow> 'a \<Rightarrow> 'a list \<Rightarrow> row_type \<Rightarrow> error + ('a list \<times> row_type)" where
  "push_back dv v d r =
     (if m_size r < m_capacity r then
        and_then (put d (end_index r) v) (\<lambda>d1.
        Inr (d1, update (begin_index r) (m_size r + 1) r))
      else
        and_then
          (if \<not> empty_row r \<and> end_index r \<noteq> data_size d then
             and_then (append_data d (m_size r + 1) dv) (\<lambda>d1.
             and_then (move_desc d1 (begin_index r) (end_index r - 1)
                         (data_size d1 - m_size r - 1)) (\<lambda>d2.
             put d2 (data_size d2 - 1) v))
           else emplace_back d v) (\<lambda>d3.
        Inr (d3, update (data_size d3 - m_size r - 1) (m_size r + 1) r)))"

subsection \<open>What a row holds\<close>

text \<open>\<open>segment d i n\<close> is the buffer segment \<open>[i, i + n)\<close>; a row's logical content is the
  segment from \<open>begin()\<close> to \<open>end()\<close>.\<close>

definition segment :: "'a list \<Rightarrow> nat \<Rightarrow> nat \<Rightarrow> 'a list" where
  "segment d i n = take n (drop i d)"

definition row_content :: "'a list \<Rightarrow> row_type \<Rightarrow> 'a list" where
  "row_content d r = segment d (unat (m_begin_index r)) (unat (m_size r))"

text \<open>A row is well placed in a buffer when its reserved span lies inside the buffer and
  its length does not exceed its capacity.\<close>

definition row_ok :: "'a list \<Rightarrow> row_type \<Rightarrow> bool" where
  "row_ok d r \<longleftrightarrow>
     unat (m_begin_index r) + unat (m_capacity r) \<le> length d \<and> m_size r \<le> m_capacity r"

subsection \<open>\<open>vector2d\<close>\<close>

text \<open>A row method called as \<open>v[i].method(...)\<close>: \<open>operator[]\<close> on \<open>m_rows\<close> is unchecked, the
  method runs on \<open>m_data\<close> and on the row, and both are stored back.\<close>

definition on_row ::
  "nat \<Rightarrow> ('a list \<Rightarrow> row_type \<Rightarrow> error + ('a list \<times> row_type)) \<Rightarrow> 'a vector2d
     \<Rightarrow> error + 'a vector2d" where
  "on_row i f v =
     (if i < length (m_rows v) then
        and_then (f (m_data v) (m_rows v ! i)) (\<lambda>(d', r').
        Inr \<lparr>m_rows = (m_rows v)[i := r'], m_data = d'\<rparr>)
      else Inl Undefined)"

text \<open>The default constructor, and the row made by \<open>row_type(container, ctor_passkey)\<close>.\<close>

definition vector2d_default :: "'a vector2d" where
  "vector2d_default = \<lparr>m_rows = [], m_data = []\<rparr>"

definition row_new :: row_type where
  "row_new = \<lparr>m_begin_index = 0, m_size = 0, m_capacity = 0\<rparr>"

text \<open>\<open>vector2d::size()\<close>.\<close>

definition rows_size :: "'a vector2d \<Rightarrow> size_t" where
  "rows_size v = of_nat (length (m_rows v))"

text \<open>A loop \<open>for (it = from; it != to; ++it) data.emplace_back(*it)\<close> whose iterators run
  over the buffer \<open>src\<close>.\<close>

function copy_loop :: "'a list \<Rightarrow> nat \<Rightarrow> nat \<Rightarrow> 'a list \<Rightarrow> error + 'a list" where
  "copy_loop src it to data =
     (if it = to then Inr data
      else if it < length src then
        and_then (emplace_back data (src ! it)) (\<lambda>data'. copy_loop src (Suc it) to data')
      else Inl Undefined)"
  by pat_completeness auto
termination
  by (relation "measure (\<lambda>(src, it, to, data). length src - it)") auto

text \<open>The loop \<open>for (it = arr.begin(); it != arr.end(); ++it) m_data.emplace_back(*it)\<close> over
  an array given by its elements.\<close>

fun emplace_all :: "'a list \<Rightarrow> 'a list \<Rightarrow> error + 'a list" where
  "emplace_all d [] = Inr d"
| "emplace_all d (x # xs) = and_then (emplace_back d x) (\<lambda>d'. emplace_all d' xs)"

text \<open>\<open>push_back(arr)\<close>: the new row is appended to \<open>m_rows\<close> first.\<close>

definition push_back_row :: "'a list \<Rightarrow> 'a vector2d \<Rightarrow> error + 'a vector2d" where
  "push_back_row arr v =
     (let nelement = (of_nat (length arr) :: size_t);
          rows' = m_rows v @ [\<lparr>m_begin_index = data_size (m_data v), m_size = nelement,
                                m_capacity = nelement\<rparr>]
      in and_then (vec_reserve (m_data v) (data_size (m_data v) + nelement)) (\<lambda>d0.
         and_then (emplace_all d0 arr) (\<lambda>d1.
         Inr \<lparr>m_rows = rows', m_data = d1\<rparr>)))"

text \<open>\<open>nelement()\<close>: \<open>std::accumulate\<close> is started with the \<open>int\<close> 0, so the running sum is
  an \<open>int\<close>; the lambda takes it as a \<open>size_t\<close> and its \<open>size_t\<close> result goes back into
  the \<open>int\<close>.  The \<open>int\<close> result is returned as a \<open>size_t\<close>.\<close>

definition nelement :: "'a vector2d \<Rightarrow> size_t" where
  "nelement v =
     scast (fold (\<lambda>r acc. (ucast ((scast acc :: size_t) + m_size r) :: 32 word)) (m_rows v) 0)"

text \<open>\<open>compact()\<close>: the loop over the rows, with the old buffer \<open>src\<close> and the new one
  \<open>data\<close>.  An empty row is passed over by \<open>continue\<close>.\<close>

fun compact_rows ::
  "'a list \<Rightarrow> row_type list \<Rightarrow> 'a list \<Rightarrow> error + (row_type list \<times> 'a list)" where
  "compact_rows src [] data = Inr ([], data)"
| "compact_rows src (row # rows) data =
     (if empty_row row then
        and_then (compact_rows src rows data) (\<lambda>(rows', data'). Inr (row # rows', data'))
      else
        and_then (copy_loop src (row_begin row) (row_end row) data) (\<lambda>data1.
        let sz = m_size row;
            row' = update (data_size data1 - sz) sz (shrink_to_fit row)
        in and_then (compact_rows src rows data1) (\<lambda>(rows', data').
           Inr (row' # rows', data'))))"

definition compact :: "'a vector2d \<Rightarrow> error + 'a vector2d" where
  "compact v =
     and_then (vec_reserve [] (nelement v)) (\<lambda>data.
     and_then (compact_rows (m_data v) (m_rows v) data) (\<lambda>(rows', data').
     Inr \<lparr>m_rows = rows', m_data = data'\<rparr>))"

text \<open>\<open>insert(pos, row)\<close>: \<open>pos\<close> is an iterator of \<open>m_rows\<close>, given by its offset from
  \<open>m_rows.begin()\<close>; \<open>row\<close> is a row of a container whose buffer is \<open>src\<close>.
  \<open>std::vector::insert\<close> needs \<open>pos\<close> inside \<open>[begin(), end()]\<close>.\<close>

definition insert_row ::
  "nat \<Rightarrow> 'a list \<Rightarrow> row_type \<Rightarrow> 'a vector2d \<Rightarrow> error + ('a vector2d \<times> nat)" where
  "insert_row pos src row v =
     (let tmp_row = update (data_size (m_data v)) (m_size row) row_new in
      and_then (vec_reserve (m_data v) (data_size (m_data v) + m_size row)) (\<lambda>d0.
      and_then (copy_loop src (row_begin row) (row_end row) d0) (\<lambda>d1.
      if pos \<le> length (m_rows v) then
        Inr (\<lparr>m_rows = take pos (m_rows v) @ [tmp_row] @ drop pos (m_rows v), m_data = d1\<rparr>,
             pos)
      else Inl Undefined)))"

text \<open>The loop \<open>for (it = begin() + fdiff; it != begin() + ldiff; ++it) it->clear()\<close> of
  \<open>erase\<close>, over iterators of \<open>m_rows\<close>.\<close>

function clear_loop ::
  "'a list \<Rightarrow> row_type list \<Rightarrow> nat \<Rightarrow> nat \<Rightarrow> error + ('a list \<times> row_type list)" where
  "clear_loop d rows it to =
     (if it = to then Inr (d, rows)
      else if it < length rows then
        and_then (clear d (rows ! it)) (\<lambda>(d', r'). clear_loop d' (rows[it := r']) (Suc it) to)
      else Inl Undefined)"
  by pat_completeness auto
termination
  by (relation "measure (\<lambda>(d, rows, it, to). length rows - it)") auto

text \<open>\<open>erase(first, last)\<close> on rows, both iterators of \<open>m_rows\<close>.  \<open>std::vector::erase\<close>
  needs a valid range.\<close>

definition erase_rows :: "nat \<Rightarrow> nat \<Rightarrow> 'a vector2d \<Rightarrow> error + ('a vector2d \<times> nat)" where
  "erase_rows ifirst ilast v =
     (let fdiff = (of_nat ifirst :: size_t) in
      if fdiff > rows_size v \<or> fdiff < 0 then Inl OutOfRange
      else let ldiff = (of_nat ilast :: size_t) in
      if ldiff > rows_size v \<or> ldiff < 0 then Inl OutOfRange
      else let range = (of_nat ilast - of_nat ifirst :: size_t) in
      if range < 0 then Inl InvalidRange
      else if range = 0 then Inr (v, unat ldiff)
      else
        and_then (clear_loop (m_data v) (m_rows v) (unat fdiff) (unat ldiff)) (\<lambda>(d', rows').
        if ifirst \<le> ilast \<and> ilast \<le> length rows' then
          Inr (\<lparr>m_rows = take ifirst rows' @ drop ilast rows', m_data = d'\<rparr>, ifirst)
        else Inl Undefined))"

text \<open>\<open>erase(pos)\<close> on rows.\<close>

definition erase_row :: "nat \<Rightarrow> 'a vector2d \<Rightarrow> error + ('a vector2d \<times> nat)" where
  "erase_row pos v =
     (let diff = (of_nat pos :: size_t) in erase_rows (unat diff) (unat diff + 1) v)"

text \<open>\<open>resize(size, row)\<close>; \<open>row\<close> is a row of a container whose buffer is \<open>src\<close>.  The loop
  over the new rows takes the counter \<open>i\<close> and the number of rows left.\<close>

fun resize_loop ::
  "'a list \<Rightarrow> row_type \<Rightarrow> size_t \<Rightarrow> size_t \<Rightarrow> row_type list \<Rightarrow> 'a list \<Rightarrow> size_t \<Rightarrow> nat
     \<Rightarrow> error + (row_type list \<times> 'a list)" where
  "resize_loop src row nrow begin_idx rows d i 0 = Inr (rows, d)"
| "resize_loop src row nrow begin_idx rows d i (Suc n) =
     (let index = begin_idx + (i - nrow) * m_size row in
      if unat i < length rows then
        let rows1 = rows[unat i := update index (m_size row) (rows ! unat i)] in
        and_then (copy_loop src (row_begin row) (row_end row) d) (\<lambda>d1.
        resize_loop src row nrow begin_idx rows1 d1 (i + 1) n)
      else Inl Undefined)"

definition resize_rows ::
  "size_t \<Rightarrow> 'a list \<Rightarrow> row_type \<Rightarrow> 'a vector2d \<Rightarrow> error + 'a vector2d" where
  "resize_rows sz src row v =
     (let nrow = rows_size v;
          rows0 = (if unat sz \<le> length (m_rows v) then take (unat sz) (m_rows v)
                   else m_rows v @ replicate (unat sz - length (m_rows v)) row)
      in if sz \<le> nrow then Inr (v\<lparr>m_rows := rows0\<rparr>)
      else
        let diff = sz - nrow;
            extra = diff * m_size row;
            total = data_size (m_data v) + extra
        in and_then (vec_reserve (m_data v) total) (\<lambda>d0.
           and_then (resize_loop src row nrow (data_size d0) rows0 d0 nrow (unat (sz - nrow)))
             (\<lambda>(rows', d'). Inr \<lparr>m_rows = rows', m_data = d'\<rparr>)))"

subsection \<open>The span invariant\<close>

text \<open>Every row's reserved span lies inside the buffer.\<close>

definition spans_inside :: "'a vector2d \<Rightarrow> bool" where
  "spans_inside v \<longleftrightarrow>
     list_all (\<lambda>r. unat (m_begin_index r) + unat (m_capacity r) \<le> length (m_data v)) (m_rows v)"

text \<open>The number of live elements: the sum of the rows' lengths.\<close>

definition live :: "row_type list \<Rightarrow> nat" where
  "live rows = sum_list (map (\<lambda>r. unat (m_size r)) rows)"

section \<open>Facts about the helpers\<close>

subsection \<open>Words that hold small numbers\<close>

lemma unat_of_nat64: "n < 2 ^ 64 \<Longrightarrow> unat (of_nat n :: size_t) = n"
  by (simp add: unat_of_nat)

lemma of_nat_le64:
  "m < 2 ^ 64 \<Longrightarrow> n < 2 ^ 64 \<Longrightarrow> (of_nat m \<le> (of_nat n :: size_t)) = (m \<le> n)"
  by (simp add: word_le_nat_alt unat_of_nat64)

lemma of_nat_less64:
  "m < 2 ^ 64 \<Longrightarrow> n < 2 ^ 64 \<Longrightarrow> (of_nat m < (of_nat n :: size_t)) = (m < n)"
  by (simp add: word_less_nat_alt unat_of_nat64)

lemma of_nat_eq64:
  "m < 2 ^ 64 \<Longrightarrow> n < 2 ^ 64 \<Longrightarrow> (of_nat m = (of_nat n :: size_t)) = (m = n)"
  by (metis unat_of_nat64)

lemma ucast_minus_one: "(ucast (- 1 :: size_t) :: 32 word) = - 1"
  by (rule bit_word_eqI) (auto simp add: bit_simps)

lemma to_int_minus_one: "to_int (- 1) = - 1"
  by (simp add: to_int_def ucast_minus_one)

lemma to_int_of_nat: "n < 2 ^ 31 \<Longrightarrow> to_int (of_nat n) = int n"
  by (simp add: to_int_def unsigned_of_nat signed_of_nat take_bit_nat_eq_self
      signed_take_bit_int_eq_self)

text \<open>Beyond \<open>2 ^ 31 - 1\<close> the \<open>int\<close> counter is negative: asked to move \<open>2 ^ 31 + 1\<close>
  slots, \<open>move_desc\<close> moves none.  Hence the bound on the moved slots in what follows.\<close>

lemma to_int_limit: "to_int (2 ^ 31) = - (2 ^ 31)"
  by (simp add: to_int_def)

lemma move_desc_beyond_int: "move_desc d ibegin (ibegin + 2 ^ 31) new_ibegin = Inr d"
  by (simp add: move_desc_def to_int_def)

lemma and_then_Inr [simp]: "and_then (Inr x) f = f x"
  by (simp add: and_then_def)

lemma and_then_Inl [simp]: "and_then (Inl e) f = Inl e"
  by (simp add: and_then_def)

lemma get_of_nat: "i < length d \<Longrightarrow> length d < 2 ^ 64 \<Longrightarrow> get d (of_nat i) = Inr (d ! i)"
  by (simp add: get_def unat_of_nat64)

lemma put_of_nat:
  "i < length d \<Longrightarrow> length d < 2 ^ 64 \<Longrightarrow> put d (of_nat i) v = Inr (d[i := v])"
  by (simp add: put_def unat_of_nat64)

subsection \<open>Segments\<close>

lemma segment_Suc_end:
  "i + m < length d \<Longrightarrow> segment d i (Suc m) = segment d i m @ [d ! (i + m)]"
  by (simp add: segment_def take_Suc_conv_app_nth)

lemma segment_Suc_front: "i < length d \<Longrightarrow> segment d i (Suc m) = d ! i # segment d (Suc i) m"
  by (simp add: segment_def Cons_nth_drop_Suc [symmetric])

lemma length_segment: "i + m \<le> length d \<Longrightarrow> length (segment d i m) = m"
  by (simp add: segment_def)

subsection \<open>The copy loops in closed form\<close>

text \<open>Moving \<open>m\<close> slots from \<open>i\<close> to a position \<open>j\<close> at or after \<open>i\<close>, highest slot first,
  copies the old segment even where source and destination overlap.\<close>

lemma move_desc_loop_closed:
  "i + m \<le> length d \<Longrightarrow> j + m \<le> length d \<Longrightarrow> i \<le> j \<Longrightarrow> length d < 2 ^ 64 \<Longrightarrow>
   move_desc_loop d (of_nat i) (of_nat j) m
     = Inr (take j d @ segment d i m @ drop (j + m) d)"
proof (induction m arbitrary: d)
  case 0
  then show ?case by (simp add: segment_def)
next
  case (Suc m)
  let ?x = "d ! (i + m)"
  let ?d1 = "d[j + m := ?x]"
  have g: "get d (of_nat i + of_nat m) = Inr ?x"
    using Suc.prems get_of_nat [of "i + m" d] by simp
  have p: "put d (of_nat j + of_nat m) ?x = Inr ?d1"
    using Suc.prems put_of_nat [of "j + m" d ?x] by simp
  have ih: "move_desc_loop ?d1 (of_nat i) (of_nat j) m
     = Inr (take j ?d1 @ segment ?d1 i m @ drop (j + m) ?d1)"
    using Suc.prems by (intro Suc.IH) simp_all
  have t1: "take j ?d1 = take j d" by simp
  have t2: "segment ?d1 i m = segment d i m"
    using Suc.prems by (simp add: segment_def drop_update_swap)
  have t3: "drop (j + m) ?d1 = ?x # drop (Suc (j + m)) d"
    using Suc.prems by (simp add: drop_update_swap Cons_nth_drop_Suc [symmetric])
  have t4: "segment d i (Suc m) = segment d i m @ [?x]"
    using Suc.prems by (simp add: segment_Suc_end)
  show ?case
    by (simp add: g p ih t1 t2 t3 t4)
qed

text \<open>Moving to a position \<open>j\<close> at or before \<open>i\<close>, lowest slot first; \<open>t\<close> slots are
  already done.\<close>

lemma move_asc_loop_closed:
  "i + t + m \<le> length d \<Longrightarrow> j \<le> i \<Longrightarrow> length d < 2 ^ 64 \<Longrightarrow>
   move_asc_loop d (of_nat i) (of_nat j) t m
     = Inr (take (j + t) d @ segment d (i + t) m @ drop (j + t + m) d)"
proof (induction m arbitrary: d t)
  case 0
  then show ?case by (simp add: segment_def)
next
  case (Suc m)
  let ?x = "d ! (i + t)"
  let ?d1 = "d[j + t := ?x]"
  have g: "get d (of_nat i + of_nat t) = Inr ?x"
    using Suc.prems get_of_nat [of "i + t" d] by simp
  have p: "put d (of_nat j + of_nat t) ?x = Inr ?d1"
    using Suc.prems put_of_nat [of "j + t" d ?x] by simp
  have ih: "move_asc_loop ?d1 (of_nat i) (of_nat j) (Suc t) m
     = Inr (take (Suc (j + t)) ?d1 @ segment ?d1 (Suc (i + t)) m @ drop (Suc (j + t + m)) ?d1)"
    using Suc.prems Suc.IH [of "Suc t" ?d1] by simp
  have t1: "take (Suc (j + t)) ?d1 = take (j + t) d @ [?x]"
    using Suc.prems by (simp add: take_Suc_conv_app_nth)
  have t2: "segment ?d1 (Suc (i + t)) m = segment d (Suc (i + t)) m"
    using Suc.prems by (simp add: segment_def)
  have t3: "drop (Suc (j + t + m)) ?d1 = drop (Suc (j + t + m)) d"
    by simp
  have t4: "segment d (i + t) (Suc m) = ?x # segment d (Suc (i + t)) m"
    using Suc.prems by (simp add: segment_Suc_front)
  show ?case
    by (simp add: g p ih t1 t2 t3 t4)
qed

lemma write_range_closed:
  "base + t + length xs \<le> length d \<Longrightarrow> length d < 2 ^ 64 \<Longrightarrow>
   write_range d (of_nat base) t xs
     = Inr (take (base + t) d @ xs @ drop (base + t + length xs) d)"
proof (induction xs arbitrary: d t)
  case Nil
  then show ?case by simp
next
  case (Cons x xs)
  let ?d1 = "d[base + t := x]"
  have p: "put d (of_nat base + of_nat t) x = Inr ?d1"
    using Cons.prems put_of_nat [of "base + t" d x] by simp
  have ih: "write_range ?d1 (of_nat base) (Suc t) xs
     = Inr (take (Suc (base + t)) ?d1 @ xs @ drop (Suc (base + t + length xs)) ?d1)"
    using Cons.prems Cons.IH [of "Suc t" ?d1] by simp
  have t1: "take (Suc (base + t)) ?d1 = take (base + t) d @ [x]"
    using Cons.prems by (simp add: take_Suc_conv_app_nth)
  show ?case
    by (simp add: p ih t1)
qed

subsection \<open>The helpers called on small numbers\<close>

lemma move_desc_words:
  assumes "ib = of_nat i" "iend = of_nat e - 1" "nb = of_nat j"
    and "i \<le> e" "e \<le> length d" "j + (e - i) \<le> length d" "i \<le> j"
    and "e - i < 2 ^ 31" "length d < 2 ^ 64"
  shows "move_desc d ib iend nb = Inr (take j d @ segment d i (e - i) @ drop (j + (e - i)) d)"
proof (cases "e = i")
  case True
  then have "iend - ib = - 1" using assms by simp
  then show ?thesis using True by (simp add: move_desc_def to_int_minus_one segment_def)
next
  case False
  then obtain m where m: "e - i = Suc m" using assms(4) by (cases "e - i") auto
  then have e: "e = i + Suc m" using assms(4) by arith
  have "iend - ib = of_nat m" using assms(1,2) e by simp
  moreover have "to_int (of_nat m) = int m" using assms(8) m by (intro to_int_of_nat) arith
  ultimately have "move_desc d ib iend nb = move_desc_loop d (of_nat i) (of_nat j) (Suc m)"
    using assms(1,3) by (simp add: move_desc_def)
  also have "\<dots> = Inr (take j d @ segment d i (Suc m) @ drop (j + Suc m) d)"
    using assms m e by (intro move_desc_loop_closed) simp_all
  finally show ?thesis using m by simp
qed

lemma move_asc_words:
  assumes "ib = of_nat i" "iend = of_nat e" "nb = of_nat j"
    and "i \<le> e" "e \<le> length d" "j \<le> i"
    and "e - i < 2 ^ 31" "length d < 2 ^ 64"
  shows "move_asc d ib iend nb = Inr (take j d @ segment d i (e - i) @ drop (j + (e - i)) d)"
proof -
  obtain m where e: "e = i + m" using assms(4) by (metis le_add_diff_inverse)
  have "iend - ib = of_nat m" using assms(1,2) e by simp
  moreover have tm: "to_int (of_nat m) = int m" using assms(7) e by (intro to_int_of_nat) simp
  ultimately have "move_asc d ib iend nb
      = (if m = 0 then Inr d else move_asc_loop d (of_nat i) (of_nat j) 0 m)"
    using assms(1,3) by (simp add: move_asc_def)
  also have "\<dots> = Inr (take j d @ segment d i m @ drop (j + m) d)"
  proof (cases "m = 0")
    case True
    then show ?thesis by (simp add: segment_def)
  next
    case False
    then show ?thesis
      using assms e move_asc_loop_closed [of i 0 m d j] by simp
  qed
  finally show ?thesis using e by simp
qed

lemma append_data_words:
  assumes "count = of_nat k" "length d + k \<le> max_size"
  shows "append_data d count v = Inr (d @ replicate k v)"
proof -
  have "length d + k < 2 ^ 64" using assms(2) by (simp add: max_size_def)
  then have "unat (data_size d + count) = length d + k"
    using assms(1) unat_of_nat64 [of "length d + k"] by (simp add: data_size_def)
  then show ?thesis using assms(2) by (simp add: append_data_def vec_resize_def)
qed

lemma write_range_words:
  assumes "base = of_nat i" "i + length xs \<le> length d" "length d < 2 ^ 64"
  shows "write_range d base 0 xs = Inr (take i d @ xs @ drop (i + length xs) d)"
  using assms write_range_closed [of i 0 xs d] by simp

lemma unat_of_nat_add64: "i + k < 2 ^ 64 \<Longrightarrow> unat (of_nat i + of_nat k :: size_t) = i + k"
  using unat_of_nat64 [of "i + k"] by simp

section \<open>Row operations on a well-placed row\<close>

subsection \<open>\<open>insert\<close>: the three situations and the empty range\<close>

lemma insert_fits:
  fixes d :: "'a list"
  assumes bc: "b + c \<le> length d" and sc: "s + length xs \<le> c" and ps: "p \<le> s"
    and small: "length d < 2 ^ 63" and int: "s < 2 ^ 31" and k: "xs \<noteq> []"
    and r: "r = \<lparr>m_begin_index = of_nat b, m_size = of_nat s, m_capacity = of_nat c\<rparr>"
  shows "insert_range dv (b + p) xs d r
     = Inr (take (b + p) d @ xs @ segment d (b + p) (s - p) @ drop (b + s + length xs) d,
            r\<lparr>m_size := of_nat (s + length xs)\<rparr>, b + p)"
proof -
  let ?k = "length xs"
  have rb: "row_begin r = b" using bc small int by (simp add: r row_begin_def unat_of_nat64)
  have diff: "(of_nat (b + p) - of_nat (row_begin r) :: size_t) = of_nat p"
    by (simp add: rb)
  have g1: "(m_size r < (of_nat p :: size_t) \<or> (of_nat p :: size_t) < 0) = False"
    using ps bc sc small int by (simp add: r of_nat_less64)
  have g2: "((of_nat ?k :: size_t) < 0) = False" by simp
  have g3: "((of_nat ?k :: size_t) = 0) = False"
    using k bc sc small int of_nat_eq64 [of ?k 0] by simp
  have g4: "(m_size r + of_nat ?k \<le> m_capacity r) = True"
    using bc sc small int of_nat_le64 [of "s + ?k" c] by (simp add: r)
  let ?d1 = "take (b + p + ?k) d @ segment d (b + p) (b + s - (b + p)) @ drop (b + p + ?k + (b + s - (b + p))) d"
  have m1: "move_desc d (begin_index r + of_nat p) (end_index r - 1)
              (begin_index r + of_nat p + of_nat ?k) = Inr ?d1"
    using bc sc ps small int
    by (intro move_desc_words [where i = "b + p" and e = "b + s" and j = "b + p + ?k"])
       (simp_all add: r begin_index_def end_index_def)
  let ?d2 = "take (b + p) ?d1 @ xs @ drop (b + p + ?k) ?d1"
  have w1: "write_range ?d1 (begin_index r + of_nat p) 0 xs = Inr ?d2"
    using bc sc ps small int
    by (intro write_range_words [where i = "b + p"]) (simp_all add: r begin_index_def segment_def)
  have u: "unat (of_nat p :: size_t) = p" using ps bc sc small int by (simp add: unat_of_nat64)
  have upd: "update (begin_index r) (m_size r + of_nat ?k) r = r\<lparr>m_size := of_nat (s + ?k)\<rparr>"
    using g4 by (simp add: update_def r begin_index_def max_def)
  have rb': "row_begin (r\<lparr>m_size := of_nat (s + ?k)\<rparr>) = b" using rb by (simp add: row_begin_def)
  have d2: "?d2 = take (b + p) d @ xs @ segment d (b + p) (s - p) @ drop (b + s + ?k) d"
    using bc sc ps by (simp add: segment_def ac_simps)
  show ?thesis
    unfolding insert_range_def Let_def diff g1 g2 g3 g4 if_False if_True m1 w1 and_then_Inr upd rb' u d2 
    by (simp add: rb)
qed


lemma insert_relocate:
  fixes d :: "'a list"
  assumes bc: "b + c \<le> length d" and sc: "c < s + length xs" and ps: "p \<le> s" and le: "s \<le> c"
    and nt: "b + s \<noteq> length d"
    and small: "length d + s + length xs < 2 ^ 63" and int: "s < 2 ^ 31" and k: "xs \<noteq> []"
    and r: "r = \<lparr>m_begin_index = of_nat b, m_size = of_nat s, m_capacity = of_nat c\<rparr>"
  shows "insert_range dv (b + p) xs d r
     = Inr (d @ segment d b p @ xs @ segment d (b + p) (s - p),
            \<lparr>m_begin_index = of_nat (length d), m_size = of_nat (s + length xs),
             m_capacity = of_nat (s + length xs)\<rparr>, length d + p)"
proof -
  let ?k = "length xs"
  let ?n = "length d"
  have rb: "row_begin r = b" using bc small int by (simp add: r row_begin_def unat_of_nat64)
  have re: "row_end r = b + s" using bc small int le by (simp add: r row_end_def unat_of_nat64)
  have diff: "(of_nat (b + p) - of_nat (row_begin r) :: size_t) = of_nat p"
    by (simp add: rb)
  have g1: "(m_size r < (of_nat p :: size_t) \<or> (of_nat p :: size_t) < 0) = False"
    using ps bc sc small int by (simp add: r of_nat_less64)
  have g2: "((of_nat ?k :: size_t) < 0) = False" by simp
  have g3: "((of_nat ?k :: size_t) = 0) = False"
    using k small int of_nat_eq64 [of ?k 0] by simp
  have g4: "(m_size r + of_nat ?k \<le> m_capacity r) = False"
    using bc sc small int of_nat_le64 [of "s + ?k" c] by (simp add: r)
  have g5: "(row_end r \<noteq> length d) = True" using nt re by simp
  let ?d1 = "d @ replicate (s + ?k) dv"
  have a1: "append_data d (m_size r + of_nat ?k) dv = Inr ?d1"
    using small int by (intro append_data_words) (simp_all add: r max_size_def)
  let ?d2 = "d @ segment d b p @ replicate (s + ?k - p) dv"
  have "move_desc ?d1 (begin_index r) (begin_index r + of_nat p - 1)
              (data_size ?d1 - m_size r - of_nat ?k)
          = Inr (take ?n ?d1 @ segment ?d1 b (b + p - b) @ drop (?n + (b + p - b)) ?d1)"
    using bc ps le small int
    by (intro move_desc_words [where i = b and e = "b + p" and j = ?n])
       (simp_all add: r begin_index_def data_size_def)
  also have "take ?n ?d1 @ segment ?d1 b (b + p - b) @ drop (?n + (b + p - b)) ?d1 = ?d2"
    using bc ps le by (simp add: segment_def)
  finally have m1: "move_desc ?d1 (begin_index r) (begin_index r + of_nat p - 1)
              (data_size ?d1 - m_size r - of_nat ?k) = Inr ?d2" .
  let ?d3 = "d @ segment d b p @ xs @ replicate (s - p) dv"
  have l2: "length ?d2 = ?n + s + ?k" using bc ps le by (simp add: length_segment)
  have "write_range ?d2 (data_size ?d2 - m_size r - of_nat ?k + of_nat p) 0 xs
          = Inr (take (?n + p) ?d2 @ xs @ drop (?n + p + ?k) ?d2)"
    using bc ps le small int l2
    by (intro write_range_words [where i = "?n + p"])
       (simp_all add: r data_size_def del: length_append length_replicate)
  also have "take (?n + p) ?d2 @ xs @ drop (?n + p + ?k) ?d2 = ?d3"
    using bc ps le by (simp add: length_segment)
  finally have w1: "write_range ?d2 (data_size ?d2 - m_size r - of_nat ?k + of_nat p) 0 xs
          = Inr ?d3" .
  let ?d4 = "d @ segment d b p @ xs @ segment d (b + p) (s - p)"
  have l3: "length ?d3 = ?n + s + ?k" using bc ps le by (simp add: length_segment)
  have "move_desc ?d3 (begin_index r + of_nat p) (end_index r - 1)
              (data_size ?d3 - m_size r + of_nat p)
          = Inr (take (?n + ?k + p) ?d3 @ segment ?d3 (b + p) (b + s - (b + p))
                 @ drop (?n + ?k + p + (b + s - (b + p))) ?d3)"
    using bc ps le small int l3
    by (intro move_desc_words [where i = "b + p" and e = "b + s" and j = "?n + ?k + p"])
       (simp_all add: r begin_index_def end_index_def data_size_def
          del: length_append length_replicate)
  also have "take (?n + ?k + p) ?d3 @ segment ?d3 (b + p) (b + s - (b + p))
                 @ drop (?n + ?k + p + (b + s - (b + p))) ?d3 = ?d4"
    using bc ps le by (simp add: length_segment segment_def)
  finally have m2: "move_desc ?d3 (begin_index r + of_nat p) (end_index r - 1)
              (data_size ?d3 - m_size r + of_nat p) = Inr ?d4" .
  have l4: "length ?d4 = ?n + s + ?k" using bc ps le by (simp add: length_segment)
  let ?r' = "\<lparr>m_begin_index = of_nat ?n, m_size = of_nat (s + ?k), m_capacity = of_nat (s + ?k)\<rparr>"
  have upd: "update (data_size ?d4 - m_size r - of_nat ?k) (m_size r + of_nat ?k) r = ?r'"
    using g4 l4 by (simp add: update_def r data_size_def max_def del: length_append)
  have rb': "row_begin ?r' = ?n" using small int by (simp add: row_begin_def unat_of_nat64)
  have u: "unat (of_nat p :: size_t) = p" using ps small int by (simp add: unat_of_nat64)
  show ?thesis
    unfolding insert_range_def Let_def diff g1 g2 g3 g4 g5 if_False if_True a1 m1 w1 m2
      and_then_Inr upd rb' u
    by simp
qed


lemma insert_tail:
  fixes d :: "'a list"
  assumes bs: "b + s = length d" and ps: "p \<le> s" and le: "s \<le> c" and bc: "b + c \<le> length d"
    and small: "length d + length xs < 2 ^ 63" and int: "s < 2 ^ 31" and k: "xs \<noteq> []"
    and r: "r = \<lparr>m_begin_index = of_nat b, m_size = of_nat s, m_capacity = of_nat c\<rparr>"
  shows "insert_range dv (b + p) xs d r
     = Inr (take (b + p) d @ xs @ segment d (b + p) (s - p),
            \<lparr>m_begin_index = of_nat b, m_size = of_nat (s + length xs),
             m_capacity = of_nat (s + length xs)\<rparr>, b + p)"
proof -
  let ?k = "length xs"
  let ?n = "length d"
  have cs: "c = s" using bs le bc by simp
  have k0: "0 < ?k" using k by simp
  have rb: "row_begin r = b" using bc small int by (simp add: r row_begin_def unat_of_nat64)
  have re: "row_end r = b + s" using bc small int le by (simp add: r row_end_def unat_of_nat64)
  have diff: "(of_nat (b + p) - of_nat (row_begin r) :: size_t) = of_nat p"
    by (simp add: rb)
  have g1: "(m_size r < (of_nat p :: size_t) \<or> (of_nat p :: size_t) < 0) = False"
    using ps bc le small int by (simp add: r of_nat_less64)
  have g2: "((of_nat ?k :: size_t) < 0) = False" by simp
  have g3: "((of_nat ?k :: size_t) = 0) = False"
    using k small int of_nat_eq64 [of ?k 0] by simp
  have g4: "(m_size r + of_nat ?k \<le> m_capacity r) = False"
    using bc cs k0 small int of_nat_le64 [of "s + ?k" c] by (simp add: r)
  have g5: "(row_end r \<noteq> length d) = False" using bs re by simp
  let ?d1 = "d @ replicate ?k dv"
  have a1: "append_data d (of_nat ?k) dv = Inr ?d1"
    using small int by (intro append_data_words) (simp_all add: max_size_def)
  let ?d2 = "take (b + p + ?k) ?d1 @ segment d (b + p) (s - p)"
  have "move_desc ?d1 (begin_index r + of_nat p) (end_index r - 1)
              (begin_index r + of_nat p + of_nat ?k)
          = Inr (take (b + p + ?k) ?d1 @ segment ?d1 (b + p) (b + s - (b + p))
                 @ drop (b + p + ?k + (b + s - (b + p))) ?d1)"
    using bs [symmetric] ps small int
    by (intro move_desc_words [where i = "b + p" and e = "b + s" and j = "b + p + ?k"])
       (simp_all add: r begin_index_def end_index_def)
  also have "take (b + p + ?k) ?d1 @ segment ?d1 (b + p) (b + s - (b + p))
                 @ drop (b + p + ?k + (b + s - (b + p))) ?d1 = ?d2"
    using bs [symmetric] ps by (simp add: segment_def)
  finally have m1: "move_desc ?d1 (begin_index r + of_nat p) (end_index r - 1)
              (begin_index r + of_nat p + of_nat ?k) = Inr ?d2" .
  let ?d3 = "take (b + p) d @ xs @ segment d (b + p) (s - p)"
  have "write_range ?d2 (begin_index r + of_nat p) 0 xs
          = Inr (take (b + p) ?d2 @ xs @ drop (b + p + ?k) ?d2)"
    using bs [symmetric] ps small int
    by (intro write_range_words [where i = "b + p"])
       (simp_all add: r begin_index_def length_segment)
  also have "take (b + p) ?d2 @ xs @ drop (b + p + ?k) ?d2 = ?d3"
    using bs [symmetric] ps by simp
  finally have w1: "write_range ?d2 (begin_index r + of_nat p) 0 xs = Inr ?d3" .
  let ?r' = "\<lparr>m_begin_index = of_nat b, m_size = of_nat (s + ?k), m_capacity = of_nat (s + ?k)\<rparr>"
  have upd: "update (begin_index r) (m_size r + of_nat ?k) r = ?r'"
    using g4 by (simp add: update_def r begin_index_def max_def)
  have rb': "row_begin ?r' = b" using bs small int by (simp add: row_begin_def unat_of_nat64)
  have u: "unat (of_nat p :: size_t) = p" using ps bs small int by (simp add: unat_of_nat64)
  show ?thesis
    unfolding insert_range_def Let_def diff g1 g2 g3 g4 g5 if_False if_True a1 m1 w1
      and_then_Inr upd rb' u
    by simp
qed

lemma insert_nothing:
  fixes d :: "'a list"
  assumes ps: "p \<le> s" and small: "b + s < 2 ^ 64"
    and r: "r = \<lparr>m_begin_index = of_nat b, m_size = of_nat s, m_capacity = of_nat c\<rparr>"
  shows "insert_range dv (b + p) [] d r = Inr (d, r, b + p)"
proof -
  have rb: "row_begin r = b" using small by (simp add: r row_begin_def unat_of_nat64)
  have diff: "(of_nat (b + p) - of_nat (row_begin r) :: size_t) = of_nat p"
    by (simp add: rb)
  have g1: "(m_size r < (of_nat p :: size_t) \<or> (of_nat p :: size_t) < 0) = False"
    using ps small by (simp add: r of_nat_less64)
  have u: "unat (of_nat p :: size_t) = p" using ps small by (simp add: unat_of_nat64)
  show ?thesis
    unfolding insert_range_def Let_def diff g1 if_False u
    by (simp add: rb)
qed

text \<open>A row given by the numbers its three fields hold.\<close>

lemma row_ok_numbers:
  assumes "row_ok d r" "length d < 2 ^ 64"
  obtains b s c where "r = \<lparr>m_begin_index = of_nat b, m_size = of_nat s, m_capacity = of_nat c\<rparr>"
    and "b = unat (m_begin_index r)" "s = unat (m_size r)" "c = unat (m_capacity r)"
    and "b + c \<le> length d" "s \<le> c"
proof -
  have "r = \<lparr>m_begin_index = of_nat (unat (m_begin_index r)), m_size = of_nat (unat (m_size r)),
    m_capacity = of_nat (unat (m_capacity r))\<rparr>" by simp
  moreover have "unat (m_begin_index r) + unat (m_capacity r) \<le> length d"
    "unat (m_size r) \<le> unat (m_capacity r)"
    using assms(1) by (simp_all add: row_ok_def word_le_nat_alt)
  ultimately show ?thesis using that by blast
qed

lemma take_segment: "p \<le> s \<Longrightarrow> take p (segment d b s) = segment d b p"
  by (simp add: segment_def min_def)

lemma drop_segment: "drop p (segment d b s) = segment d (b + p) (s - p)"
  by (simp add: segment_def drop_take ac_simps)

lemma insert_range_spec:
  fixes d :: "'a list"
  assumes ok: "row_ok d r" and ps: "p \<le> unat (m_size r)"
    and small: "length d + unat (m_size r) + length xs \<le> max_size"
    and int: "unat (m_size r) < 2 ^ 31"
  shows "\<exists>d' r'. insert_range dv (row_begin r + p) xs d r = Inr (d', r', row_begin r' + p)
           \<and> row_content d' r' = take p (row_content d r) @ xs @ drop p (row_content d r)
           \<and> unat (m_size r') = unat (m_size r) + length xs
           \<and> row_ok d' r'
           \<and> length d \<le> length d'
           \<and> length d' \<le> length d + unat (m_size r) + length xs
           \<and> (xs = [] \<longrightarrow> d' = d \<and> r' = r)"
proof -
  have "length d < 2 ^ 64" using small by (simp add: max_size_def)
  with ok obtain b s c
    where r: "r = \<lparr>m_begin_index = of_nat b, m_size = of_nat s, m_capacity = of_nat c\<rparr>"
      and b: "b = unat (m_begin_index r)" and s: "s = unat (m_size r)"
      and bc: "b + c \<le> length d" and le: "s \<le> c"
    by (auto elim!: row_ok_numbers)
  have rb: "row_begin r = b" by (simp add: row_begin_def b)
  have rc: "row_content d r = segment d b s" by (simp add: row_content_def b s)
  have ps': "p \<le> s" using ps s by simp
  have small': "length d + s + length xs < 2 ^ 63" using small s by (simp add: max_size_def)
  have int': "s < 2 ^ 31" using int s by simp
  let ?k = "length xs"
  let ?n = "length d"
  consider (no_elements) "xs = []" | (fits) "xs \<noteq> []" "s + ?k \<le> c"
    | (relocate) "xs \<noteq> []" "c < s + ?k" "b + s \<noteq> ?n"
    | (tail) "xs \<noteq> []" "c < s + ?k" "b + s = ?n"
    by linarith
  then show ?thesis
  proof cases
    case no_elements
    have "insert_range dv (b + p) [] d r = Inr (d, r, b + p)"
      using ps' bc le small' int' by (intro insert_nothing [where s = s and c = c]) (simp_all add: r)
    then show ?thesis
      unfolding no_elements using ok rb rc ps'
      by (intro exI [of _ d] exI [of _ r]) simp
  next
    case fits
    let ?d' = "take (b + p) d @ xs @ segment d (b + p) (s - p) @ drop (b + s + ?k) d"
    let ?r' = "r\<lparr>m_size := of_nat (s + ?k)\<rparr>"
    have "insert_range dv (b + p) xs d r = Inr (?d', ?r', b + p)"
      using bc fits ps' small' int' by (intro insert_fits [where c = c]) (simp_all add: r)
    moreover have "row_begin ?r' = b" using rb by (simp add: row_begin_def)
    moreover have us: "unat (m_size ?r') = s + ?k" using small' int' by (simp add: unat_of_nat64 unat_of_nat_add64)
    moreover have "row_content ?d' ?r' = segment d b p @ xs @ segment d (b + p) (s - p)"
      using bc fits ps' le small' int' int'
      by (simp add: row_content_def r unat_of_nat64 unat_of_nat_add64 segment_def drop_take)
    moreover have "row_ok ?d' ?r'"
      using bc fits ps' le small' int' of_nat_le64 [of "s + ?k" c]
      by (simp add: row_ok_def r unat_of_nat64 unat_of_nat_add64 length_segment)
    moreover have "length ?d' = length d"
      using bc fits ps' le by (simp add: length_segment)
    ultimately show ?thesis
      using fits rb rc ps' s
      by (intro exI [of _ ?d'] exI [of _ ?r'])
         (simp add: take_segment drop_segment del: length_append)
  next
    case relocate
    let ?d' = "d @ segment d b p @ xs @ segment d (b + p) (s - p)"
    let ?r' = "\<lparr>m_begin_index = of_nat ?n, m_size = of_nat (s + ?k), m_capacity = of_nat (s + ?k)\<rparr>"
    have "insert_range dv (b + p) xs d r = Inr (?d', ?r', ?n + p)"
      using bc relocate ps' le small' int' by (intro insert_relocate [where c = c]) (simp_all add: r)
    moreover have "row_begin ?r' = ?n" using small' int' by (simp add: row_begin_def unat_of_nat64 unat_of_nat_add64)
    moreover have us: "unat (m_size ?r') = s + ?k" using small' int' by (simp add: unat_of_nat64 unat_of_nat_add64)
    moreover have "row_content ?d' ?r' = segment d b p @ xs @ segment d (b + p) (s - p)"
      using bc ps' le small' int' int'
      by (simp add: row_content_def unat_of_nat64 unat_of_nat_add64 segment_def drop_take)
    moreover have "row_ok ?d' ?r'"
      using bc ps' le small' int' 
      by (simp add: row_ok_def unat_of_nat64 unat_of_nat_add64 length_segment)
    moreover have "length ?d' = length d + s + ?k"
      using bc ps' le by (simp add: length_segment)
    ultimately show ?thesis
      using relocate rb rc ps' s
      by (intro exI [of _ ?d'] exI [of _ ?r'])
         (simp add: take_segment drop_segment del: length_append)
  next
    case tail
    let ?d' = "take (b + p) d @ xs @ segment d (b + p) (s - p)"
    let ?r' = "\<lparr>m_begin_index = of_nat b, m_size = of_nat (s + ?k), m_capacity = of_nat (s + ?k)\<rparr>"
    have "insert_range dv (b + p) xs d r = Inr (?d', ?r', b + p)"
      using bc tail ps' le small' int' by (intro insert_tail [where c = c]) (simp_all add: r)
    moreover have "row_begin ?r' = b" using bc small' int' by (simp add: row_begin_def unat_of_nat64 unat_of_nat_add64)
    moreover have us: "unat (m_size ?r') = s + ?k" using small' int' by (simp add: unat_of_nat64 unat_of_nat_add64)
    moreover have "row_content ?d' ?r' = segment d b p @ xs @ segment d (b + p) (s - p)"
      using bc ps' le small' int' tail
      by (simp add: row_content_def unat_of_nat64 unat_of_nat_add64 segment_def drop_take)
    moreover have "row_ok ?d' ?r'"
      using bc ps' le small' int' tail
      by (simp add: row_ok_def unat_of_nat64 unat_of_nat_add64 length_segment)
    moreover have "length ?d' = length d + ?k"
      using bc ps' le tail by (simp add: length_segment)
    ultimately show ?thesis
      using tail rb rc ps' s
      by (intro exI [of _ ?d'] exI [of _ ?r'])
         (simp add: take_segment drop_segment del: length_append)
  qed
qed

subsection \<open>\<open>erase\<close>\<close>

lemma destroy_loop_inside: "it \<le> to \<Longrightarrow> to \<le> length d \<Longrightarrow> destroy_loop d it to = Inr d"
proof (induction d it to rule: destroy_loop.induct)
  case (1 d it to)
  then show ?case by (cases "it = to") simp_all
qed

lemma erase_numbers:
  fixes d :: "'a list"
  assumes bc: "b + c \<le> length d" and le: "s \<le> c" and fl: "f < l" and ls: "l \<le> s"
    and small: "length d < 2 ^ 63" and int: "s < 2 ^ 31"
    and r: "r = \<lparr>m_begin_index = of_nat b, m_size = of_nat s, m_capacity = of_nat c\<rparr>"
  shows "erase_range (b + f) (b + l) d r
     = Inr (take (b + f) d @ segment d (b + l) (s - l) @ drop (b + f + (s - l)) d,
            r\<lparr>m_size := of_nat (s - (l - f))\<rparr>, b + f)"
proof -
  have rb: "row_begin r = b" using bc small int by (simp add: r row_begin_def unat_of_nat64)
  have fdiff: "(of_nat (b + f) - of_nat (row_begin r) :: size_t) = of_nat f"
    by (simp add: rb)
  have ldiff: "(of_nat (b + l) - of_nat (row_begin r) :: size_t) = of_nat l"
    by (simp add: rb)
  have range: "(of_nat (b + l) - of_nat (b + f) :: size_t) = of_nat (l - f)"
    using fl by simp
  have g1: "(m_size r < (of_nat f :: size_t) \<or> (of_nat f :: size_t) < 0) = False"
    using fl ls le bc small int by (simp add: r of_nat_less64)
  have g2: "(m_size r < (of_nat l :: size_t) \<or> (of_nat l :: size_t) < 0) = False"
    using fl ls le bc small int by (simp add: r of_nat_less64)
  have g3: "((of_nat (l - f) :: size_t) < 0) = False" by simp
  have g4: "((of_nat (l - f) :: size_t) = 0) = False"
    using fl ls le bc small int of_nat_eq64 [of "l - f" 0] by simp
  have uf: "unat (of_nat f :: size_t) = f" using fl ls le bc small int by (simp add: unat_of_nat64)
  have ul: "unat (of_nat l :: size_t) = l" using fl ls le bc small int by (simp add: unat_of_nat64)
  have dl: "destroy_loop d (row_begin r + f) (row_begin r + l) = Inr d"
    using fl ls le bc by (intro destroy_loop_inside) (simp_all add: rb)
  let ?d' = "take (b + f) d @ segment d (b + l) (b + s - (b + l)) @ drop (b + f + (b + s - (b + l))) d"
  have m1: "move_asc d (begin_index r + of_nat l) (end_index r)
              (begin_index r + of_nat l - of_nat (l - f)) = Inr ?d'"
    using fl ls le bc small int
    by (intro move_asc_words [where i = "b + l" and e = "b + s" and j = "b + f"])
       (simp_all add: r begin_index_def end_index_def)
  have d': "?d' = take (b + f) d @ segment d (b + l) (s - l) @ drop (b + f + (s - l)) d"
    by simp
  have e: "m_size r - of_nat (l - f) = (of_nat (s - (l - f)) :: size_t)"
    using fl ls by (simp add: r)
  have le': "(of_nat (s - (l - f)) :: size_t) \<le> of_nat c"
    using fl ls le bc small int of_nat_le64 [of "s - (l - f)" c] by (simp del: of_nat_diff)
  have upd: "update (begin_index r) (m_size r - of_nat (l - f)) r = r\<lparr>m_size := of_nat (s - (l - f))\<rparr>"
    unfolding update_def e using le' by (simp add: r begin_index_def max_def del: of_nat_diff)
  have rb': "row_begin (r\<lparr>m_size := of_nat (s - (l - f))\<rparr>) = b" using rb by (simp add: row_begin_def)
  show ?thesis
    unfolding erase_range_def Let_def fdiff ldiff range g1 g2 g3 g4 if_False uf ul dl m1
      and_then_Inr upd rb' d'
    by simp
qed

lemma erase_nothing:
  fixes d :: "'a list"
  assumes ls: "l \<le> s" and small: "b + s < 2 ^ 64"
    and r: "r = \<lparr>m_begin_index = of_nat b, m_size = of_nat s, m_capacity = of_nat c\<rparr>"
  shows "erase_range (b + l) (b + l) d r = Inr (d, r, b + l)"
proof -
  have rb: "row_begin r = b" using small by (simp add: r row_begin_def unat_of_nat64)
  have ldiff: "(of_nat (b + l) - of_nat (row_begin r) :: size_t) = of_nat l"
    by (simp add: rb)
  have g2: "(m_size r < (of_nat l :: size_t) \<or> (of_nat l :: size_t) < 0) = False"
    using ls small by (simp add: r of_nat_less64)
  have ul: "unat (of_nat l :: size_t) = l" using ls small by (simp add: unat_of_nat64)
  show ?thesis
    unfolding erase_range_def Let_def ldiff g2 if_False ul
    by (simp add: rb)
qed

lemma erase_range_spec:
  fixes d :: "'a list"
  assumes ok: "row_ok d r" and fl: "f \<le> l" and ls: "l \<le> unat (m_size r)"
    and small: "length d \<le> max_size" and int: "unat (m_size r) < 2 ^ 31"
  shows "\<exists>d' r'. erase_range (row_begin r + f) (row_begin r + l) d r
                    = Inr (d', r', row_begin r' + f)
           \<and> row_content d' r' = take f (row_content d r) @ drop l (row_content d r)
           \<and> unat (m_size r') = unat (m_size r) - (l - f)
           \<and> m_capacity r' = m_capacity r \<and> m_begin_index r' = m_begin_index r
           \<and> length d' = length d \<and> row_ok d' r'
           \<and> (f = l \<longrightarrow> d' = d \<and> r' = r)"
proof -
  have small': "length d < 2 ^ 63" using small by (simp add: max_size_def)
  then have "length d < 2 ^ 64" by simp
  with ok obtain b s c
    where r: "r = \<lparr>m_begin_index = of_nat b, m_size = of_nat s, m_capacity = of_nat c\<rparr>"
      and b: "b = unat (m_begin_index r)" and s: "s = unat (m_size r)"
      and bc: "b + c \<le> length d" and le: "s \<le> c"
    by (auto elim!: row_ok_numbers)
  have rb: "row_begin r = b" by (simp add: row_begin_def b)
  have rc: "row_content d r = segment d b s" by (simp add: row_content_def b s)
  have ls': "l \<le> s" using ls s by simp
  have int': "s < 2 ^ 31" using int s by simp
  show ?thesis
  proof (cases "f = l")
    case True
    have "erase_range (b + l) (b + l) d r = Inr (d, r, b + l)"
      using ls' bc le small' int' by (intro erase_nothing [where s = s and c = c]) (simp_all add: r)
    then show ?thesis
      unfolding True using ok rb rc ls' s
      by (intro exI [of _ d] exI [of _ r]) simp
  next
    case False
    then have fl': "f < l" using fl by simp
    let ?d' = "take (b + f) d @ segment d (b + l) (s - l) @ drop (b + f + (s - l)) d"
    let ?r' = "r\<lparr>m_size := of_nat (s - (l - f))\<rparr>"
    have "erase_range (b + f) (b + l) d r = Inr (?d', ?r', b + f)"
      using bc le fl' ls' small' int' by (intro erase_numbers [where c = c]) (simp_all add: r)
    moreover have "row_begin ?r' = b" using rb by (simp add: row_begin_def)
    moreover have us: "unat (m_size ?r') = s - (l - f)"
      using bc le ls' small' int' by (simp add: unat_of_nat64 del: of_nat_diff)
    moreover have "row_content ?d' ?r' = segment d b f @ segment d (b + l) (s - l)"
      using bc le fl' ls' small' int' us
      by (simp add: row_content_def r segment_def drop_take unat_of_nat64 del: of_nat_diff)
    moreover have len: "length ?d' = length d"
      using bc le fl' ls' by (simp add: length_segment)
    moreover have "row_ok ?d' ?r'"
      using bc le fl' ls' small' int' of_nat_le64 [of "s - (l - f)" c] len
      by (simp add: row_ok_def r unat_of_nat64 del: length_append of_nat_diff)
    ultimately show ?thesis
      using False rb rc fl' ls' s
      by (intro exI [of _ ?d'] exI [of _ ?r']) (simp add: take_segment drop_segment)
  qed
qed

subsection \<open>\<open>push_back\<close>\<close>

lemma push_back_fast:
  fixes d :: "'a list"
  assumes bc: "b + c \<le> length d" and sc: "s < c" and small: "length d < 2 ^ 63"
    and r: "r = \<lparr>m_begin_index = of_nat b, m_size = of_nat s, m_capacity = of_nat c\<rparr>"
  shows "push_back dv v d r = Inr (d[b + s := v], r\<lparr>m_size := of_nat (s + 1)\<rparr>)"
proof -
  have g1: "(m_size r < m_capacity r) = True"
    using bc sc small by (simp add: r of_nat_less64)
  have p1: "put d (end_index r) v = Inr (d[b + s := v])"
    using bc sc small put_of_nat [of "b + s" d v] by (simp add: r end_index_def)
  have e1: "m_size r + 1 = (of_nat (s + 1) :: size_t)" by (simp add: r)
  have le': "(of_nat (s + 1) :: size_t) \<le> of_nat c"
    using bc sc small by (intro iffD2 [OF of_nat_le64]) simp_all
  have upd: "update (begin_index r) (m_size r + 1) r = r\<lparr>m_size := of_nat (s + 1)\<rparr>"
    unfolding update_def e1 using le'
    by (simp add: r begin_index_def max_def del: of_nat_add of_nat_Suc)
  show ?thesis
    unfolding push_back_def g1 if_True p1 and_then_Inr upd by simp
qed

lemma push_back_relocate:
  fixes d :: "'a list"
  assumes bc: "b + s \<le> length d" and s0: "0 < s" and nt: "b + s \<noteq> length d"
    and small: "length d + s + 1 < 2 ^ 63" and int: "s < 2 ^ 31"
    and r: "r = \<lparr>m_begin_index = of_nat b, m_size = of_nat s, m_capacity = of_nat s\<rparr>"
  shows "push_back dv v d r
     = Inr (d @ segment d b s @ [v],
            \<lparr>m_begin_index = of_nat (length d), m_size = of_nat (s + 1),
             m_capacity = of_nat (s + 1)\<rparr>)"
proof -
  let ?n = "length d"
  have g1: "(m_size r < m_capacity r) = False" by (simp add: r)
  have g2: "(\<not> empty_row r \<and> end_index r \<noteq> data_size d) = True"
    using bc s0 nt small int of_nat_eq64 [of s 0] of_nat_eq64 [of "b + s" ?n]
    by (simp add: r empty_row_def end_index_def data_size_def)
  let ?d1 = "d @ replicate (s + 1) dv"
  have a1: "append_data d (m_size r + 1) dv = Inr ?d1"
    using small int by (intro append_data_words) (simp_all add: r max_size_def)
  let ?d2 = "d @ segment d b s @ [dv]"
  have "move_desc ?d1 (begin_index r) (end_index r - 1) (data_size ?d1 - m_size r - 1)
          = Inr (take ?n ?d1 @ segment ?d1 b (b + s - b) @ drop (?n + (b + s - b)) ?d1)"
    using bc small int
    by (intro move_desc_words [where i = b and e = "b + s" and j = ?n])
       (simp_all add: r begin_index_def end_index_def data_size_def)
  also have "take ?n ?d1 @ segment ?d1 b (b + s - b) @ drop (?n + (b + s - b)) ?d1 = ?d2"
  proof -
    have "drop s (dv # replicate s dv) = [dv]" by (induction s) simp_all
    then show ?thesis using bc by (simp add: segment_def)
  qed
  finally have m1: "move_desc ?d1 (begin_index r) (end_index r - 1)
      (data_size ?d1 - m_size r - 1) = Inr ?d2" .
  let ?d3 = "d @ segment d b s @ [v]"
  have l2: "length ?d2 = ?n + s + 1" using bc by (simp add: length_segment)
  have "put ?d2 (data_size ?d2 - 1) v = Inr (?d2[?n + s := v])"
    using small int l2 put_of_nat [of "?n + s" ?d2 v]
    by (simp add: data_size_def del: length_append)
  also have "?d2[?n + s := v] = ?d3"
    using bc by (simp add: list_update_append length_segment)
  finally have p1: "put ?d2 (data_size ?d2 - 1) v = Inr ?d3" .
  have l3: "length ?d3 = ?n + s + 1" using bc by (simp add: length_segment)
  let ?r' = "\<lparr>m_begin_index = of_nat ?n, m_size = of_nat (s + 1), m_capacity = of_nat (s + 1)\<rparr>"
  have b': "data_size ?d3 - m_size r - 1 = of_nat ?n"
    using l3 by (simp add: r data_size_def del: length_append)
  have e1: "m_size r + 1 = (of_nat (s + 1) :: size_t)" by (simp add: r)
  have nle: "\<not> (of_nat (s + 1) :: size_t) \<le> of_nat s"
    using small int of_nat_le64 [of "s + 1" s] by (simp del: of_nat_add of_nat_Suc)
  have upd: "update (data_size ?d3 - m_size r - 1) (m_size r + 1) r = ?r'"
    unfolding update_def b' e1 using nle
    by (simp add: r max_def del: of_nat_add of_nat_Suc)
  show ?thesis
    unfolding push_back_def g1 g2 if_False if_True a1 m1 p1 and_then_Inr upd by simp
qed

lemma push_back_emplace:
  fixes d :: "'a list"
  assumes bc: "b + s \<le> length d" and tl: "s = 0 \<or> b + s = length d"
    and small: "length d + s + 1 < 2 ^ 63"
    and r: "r = \<lparr>m_begin_index = of_nat b, m_size = of_nat s, m_capacity = of_nat s\<rparr>"
  shows "push_back dv v d r
     = Inr (d @ [v],
            \<lparr>m_begin_index = of_nat (length d - s), m_size = of_nat (s + 1),
             m_capacity = of_nat (s + 1)\<rparr>)"
proof -
  let ?n = "length d"
  have g1: "(m_size r < m_capacity r) = False" by (simp add: r)
  have "b + s = ?n \<Longrightarrow> (of_nat b + of_nat s :: size_t) = of_nat ?n"
    by (metis of_nat_add)
  then have g2: "(\<not> empty_row r \<and> end_index r \<noteq> data_size d) = False"
    using tl by (auto simp add: r empty_row_def end_index_def data_size_def)
  have eb: "emplace_back d v = Inr (d @ [v])"
    using small by (simp add: emplace_back_def max_size_def)
  let ?r' = "\<lparr>m_begin_index = of_nat (?n - s), m_size = of_nat (s + 1), m_capacity = of_nat (s + 1)\<rparr>"
  have b': "data_size (d @ [v]) - m_size r - 1 = of_nat (?n - s)"
    using bc by (simp add: r data_size_def)
  have e1: "m_size r + 1 = (of_nat (s + 1) :: size_t)" by (simp add: r)
  have nle: "\<not> (of_nat (s + 1) :: size_t) \<le> of_nat s"
    using small of_nat_le64 [of "s + 1" s] by (simp del: of_nat_add of_nat_Suc)
  have upd: "update (data_size (d @ [v]) - m_size r - 1) (m_size r + 1) r = ?r'"
    unfolding update_def b' e1 using nle
    by (simp add: r max_def del: of_nat_add of_nat_Suc of_nat_diff)
  show ?thesis
    unfolding push_back_def g1 g2 if_False eb and_then_Inr upd by simp
qed

lemma push_back_spec:
  fixes d :: "'a list"
  assumes ok: "row_ok d r" and small: "length d + unat (m_size r) + 1 \<le> max_size"
    and int: "unat (m_size r) < 2 ^ 31"
  shows "\<exists>d' r'. push_back dv v d r = Inr (d', r')
           \<and> row_content d' r' = row_content d r @ [v]
           \<and> unat (m_size r') = unat (m_size r) + 1
           \<and> row_ok d' r'
           \<and> length d \<le> length d'
           \<and> (m_size r = m_capacity r \<and> unat (m_begin_index r) + unat (m_capacity r) \<noteq> length d
                \<longrightarrow> length d' = length d + unat (m_size r) + 1
                  \<and> unat (m_begin_index r') = length d \<and> take (length d) d' = d)"
proof -
  have "length d < 2 ^ 64" using small by (simp add: max_size_def)
  with ok obtain b s c
    where r: "r = \<lparr>m_begin_index = of_nat b, m_size = of_nat s, m_capacity = of_nat c\<rparr>"
      and b: "b = unat (m_begin_index r)" and s: "s = unat (m_size r)"
      and c: "c = unat (m_capacity r)"
      and bc: "b + c \<le> length d" and le: "s \<le> c"
    by (auto elim!: row_ok_numbers)
  have rc: "row_content d r = segment d b s" by (simp add: row_content_def b s)
  have small': "length d + s + 1 < 2 ^ 63" using small s by (simp add: max_size_def)
  have int': "s < 2 ^ 31" using int s by simp
  have sc_eq: "(m_size r = m_capacity r) = (s = c)" using s c by (metis word_unat_eq_iff)
  let ?n = "length d"
  consider (fast) "s < c" | (relocate) "s = c" "0 < s" "b + s \<noteq> ?n"
    | (emplace) "s = c" "s = 0 \<or> b + s = ?n"
    using le by linarith
  then show ?thesis
  proof cases
    case fast
    let ?d' = "d[b + s := v]"
    let ?r' = "r\<lparr>m_size := of_nat (s + 1)\<rparr>"
    have "push_back dv v d r = Inr (?d', ?r')"
      using bc fast small' int' by (intro push_back_fast [where c = c]) (simp_all add: r)
    moreover have us: "unat (m_size ?r') = s + 1"
      using small' int' unat_of_nat64 [of "s + 1"] by simp
    moreover have "row_content ?d' ?r' = segment d b s @ [v]"
      using bc fast small' int' us
      by (simp add: row_content_def r unat_of_nat64 segment_def drop_update_swap
          take_Suc_conv_app_nth del: of_nat_add of_nat_Suc)
    moreover have "row_ok ?d' ?r'"
      using bc fast small' int' of_nat_le64 [of "s + 1" c]
      by (simp add: row_ok_def r unat_of_nat64 del: of_nat_add of_nat_Suc)
    ultimately show ?thesis
      using fast rc s sc_eq
      by (intro exI [of _ ?d'] exI [of _ ?r']) simp
  next
    case relocate
    let ?d' = "d @ segment d b s @ [v]"
    let ?r' = "\<lparr>m_begin_index = of_nat ?n, m_size = of_nat (s + 1), m_capacity = of_nat (s + 1)\<rparr>"
    have "push_back dv v d r = Inr (?d', ?r')"
      using bc relocate small' int' by (intro push_back_relocate) (simp_all add: r)
    moreover have us: "unat (m_size ?r') = s + 1"
      using small' int' unat_of_nat64 [of "s + 1"] by simp
    moreover have ub: "unat (m_begin_index ?r') = ?n" using small' int' by (simp add: unat_of_nat64)
    moreover have "row_content ?d' ?r' = segment d b s @ [v]"
      using bc relocate us ub
      by (simp add: row_content_def segment_def del: of_nat_add of_nat_Suc)
    moreover have "row_ok ?d' ?r'"
      using bc relocate us ub
      by (simp add: row_ok_def length_segment del: of_nat_add of_nat_Suc)
    ultimately show ?thesis
      using relocate rc s c bc
      by (intro exI [of _ ?d'] exI [of _ ?r']) (simp add: length_segment)
  next
    case emplace
    let ?d' = "d @ [v]"
    let ?r' = "\<lparr>m_begin_index = of_nat (?n - s), m_size = of_nat (s + 1), m_capacity = of_nat (s + 1)\<rparr>"
    have "push_back dv v d r = Inr (?d', ?r')"
      using bc emplace small' int' by (intro push_back_emplace) (simp_all add: r)
    moreover have us: "unat (m_size ?r') = s + 1"
      using small' int' unat_of_nat64 [of "s + 1"] by simp
    moreover have ub: "unat (m_begin_index ?r') = ?n - s"
      using small' int' by (simp add: unat_of_nat64 del: of_nat_diff)
    moreover have nb: "s \<noteq> 0 \<Longrightarrow> ?n - s = b" using emplace by auto
    moreover have "row_content ?d' ?r' = segment d b s @ [v]"
      using bc emplace us ub nb
      by (cases "s = 0")
         (simp_all add: row_content_def segment_def del: of_nat_add of_nat_Suc of_nat_diff)
    moreover have "row_ok ?d' ?r'"
      using bc emplace us ub
      by (simp add: row_ok_def del: of_nat_add of_nat_Suc of_nat_diff)
    ultimately show ?thesis
      using emplace rc s bc b c
      by (intro exI [of _ ?d'] exI [of _ ?r']) auto
  qed
qed

subsection \<open>\<open>reserve\<close> and \<open>pop_back\<close>\<close>

lemma reserve_relocate:
  fixes d :: "'a list"
  assumes bc: "b + c \<le> length d" and le: "s \<le> c" and cz: "c < z" and nt: "b + s \<noteq> length d"
    and small: "length d + z < 2 ^ 63" and int: "c < 2 ^ 31"
    and r: "r = \<lparr>m_begin_index = of_nat b, m_size = of_nat s, m_capacity = of_nat c\<rparr>"
  shows "reserve dv (of_nat z) d r
     = Inr (d @ segment d b c @ replicate (z - c) dv,
            \<lparr>m_begin_index = of_nat (length d), m_size = of_nat s, m_capacity = of_nat z\<rparr>)"
proof -
  let ?n = "length d"
  have g1: "((of_nat z :: size_t) \<le> m_capacity r) = False"
    using cz small int of_nat_le64 [of z c] by (simp add: r)
  have g2: "(row_end r \<noteq> length d) = True"
    using bc le nt small int by (simp add: r row_end_def unat_of_nat64)
  let ?d1 = "d @ replicate z dv"
  have a1: "append_data d (of_nat z) dv = Inr ?d1"
    using small int by (intro append_data_words) (simp_all add: max_size_def)
  let ?d2 = "d @ segment d b c @ replicate (z - c) dv"
  have "move_desc ?d1 (begin_index r) (begin_index r + m_capacity r - 1) (data_size ?d1 - of_nat z)
          = Inr (take ?n ?d1 @ segment ?d1 b (b + c - b) @ drop (?n + (b + c - b)) ?d1)"
    using bc cz small int
    by (intro move_desc_words [where i = b and e = "b + c" and j = ?n])
       (simp_all add: r begin_index_def data_size_def)
  also have "take ?n ?d1 @ segment ?d1 b (b + c - b) @ drop (?n + (b + c - b)) ?d1 = ?d2"
    using bc by (simp add: segment_def)
  finally have m1: "move_desc ?d1 (begin_index r) (begin_index r + m_capacity r - 1)
      (data_size ?d1 - of_nat z) = Inr ?d2" .
  have l2: "length ?d2 = ?n + z" using bc cz by (simp add: length_segment)
  have b': "data_size ?d2 - of_nat z = (of_nat ?n :: size_t)"
    using l2 by (simp add: data_size_def del: length_append)
  have upd: "(update (data_size ?d2 - of_nat z) (m_size r) r)\<lparr>m_capacity := of_nat z\<rparr>
      = \<lparr>m_begin_index = of_nat ?n, m_size = of_nat s, m_capacity = of_nat z\<rparr>"
    unfolding update_def b' by (simp add: r)
  show ?thesis
    unfolding reserve_def g1 g2 if_False if_True a1 m1 and_then_Inr upd by simp
qed

lemma reserve_tail:
  fixes d :: "'a list"
  assumes bs: "b + s = length d" and sz: "s < z"
    and small: "length d + z < 2 ^ 63"
    and r: "r = \<lparr>m_begin_index = of_nat b, m_size = of_nat s, m_capacity = of_nat s\<rparr>"
  shows "reserve dv (of_nat z) d r = Inr (d @ replicate (z - s) dv, r\<lparr>m_capacity := of_nat z\<rparr>)"
proof -
  have g1: "((of_nat z :: size_t) \<le> m_capacity r) = False"
    using sz small of_nat_le64 [of z s] by (simp add: r)
  have g2: "(row_end r \<noteq> length d) = False"
    using bs small by (simp add: r row_end_def unat_of_nat64)
  have a1: "append_data d (of_nat z - m_size r) dv = Inr (d @ replicate (z - s) dv)"
    using small sz by (intro append_data_words) (simp_all add: r max_size_def)
  show ?thesis
    unfolding reserve_def g1 g2 if_False a1 and_then_Inr by simp
qed

lemma reserve_spec:
  fixes d :: "'a list"
  assumes ok: "row_ok d r" and small: "length d + unat sz \<le> max_size"
    and int: "unat (m_capacity r) < 2 ^ 31"
  shows "\<exists>d' r'. reserve dv sz d r = Inr (d', r')
           \<and> row_content d' r' = row_content d r
           \<and> m_size r' = m_size r
           \<and> row_ok d' r'
           \<and> length d \<le> length d'
           \<and> (sz \<le> m_capacity r \<longrightarrow> d' = d \<and> r' = r)
           \<and> (m_capacity r < sz \<longrightarrow> m_capacity r' = sz
                \<and> m_begin_index r'
                    = (if row_end r = length d then m_begin_index r else of_nat (length d)))"
proof -
  have "length d < 2 ^ 64" using small by (simp add: max_size_def)
  with ok obtain b s c
    where r: "r = \<lparr>m_begin_index = of_nat b, m_size = of_nat s, m_capacity = of_nat c\<rparr>"
      and b: "b = unat (m_begin_index r)" and s: "s = unat (m_size r)"
      and c: "c = unat (m_capacity r)"
      and bc: "b + c \<le> length d" and le: "s \<le> c"
    by (auto elim!: row_ok_numbers)
  define z where "z = unat sz"
  have sz: "sz = of_nat z" by (simp add: z_def)
  have small': "length d + z < 2 ^ 63" using small by (simp add: z_def max_size_def)
  have int': "c < 2 ^ 31" using int c by simp
  have rc: "row_content d r = segment d b s" by (simp add: row_content_def b s)
  have re: "row_end r = b + s" by (simp add: row_end_def b s)
  have cmp: "(sz \<le> m_capacity r) = (z \<le> c)" by (simp add: word_le_nat_alt z_def c)
  let ?n = "length d"
  consider (enough) "z \<le> c" | (relocate) "c < z" "b + s \<noteq> ?n" | (tail) "c < z" "b + s = ?n"
    by linarith
  then show ?thesis
  proof cases
    case enough
    then have "reserve dv sz d r = Inr (d, r)" using cmp by (simp add: reserve_def)
    then show ?thesis using enough cmp ok
      by (intro exI [of _ d] exI [of _ r]) (simp add: not_less [symmetric])
  next
    case relocate
    let ?d' = "d @ segment d b c @ replicate (z - c) dv"
    let ?r' = "\<lparr>m_begin_index = of_nat ?n, m_size = of_nat s, m_capacity = of_nat z\<rparr>"
    have "reserve dv sz d r = Inr (?d', ?r')"
      unfolding sz using bc le relocate small' int' by (intro reserve_relocate) (simp_all add: r)
    moreover have "row_content ?d' ?r' = segment d b s"
      using bc le small' int' by (simp add: row_content_def unat_of_nat64 segment_def)
    moreover have "row_ok ?d' ?r'"
      using bc le relocate small' int' of_nat_le64 [of s z]
      by (simp add: row_ok_def unat_of_nat64 length_segment)
    ultimately show ?thesis
      using relocate cmp rc re sz
      by (intro exI [of _ ?d'] exI [of _ ?r']) (simp add: r)
  next
    case tail
    then have cs: "c = s" using bc le by simp
    let ?d' = "d @ replicate (z - s) dv"
    let ?r' = "r\<lparr>m_capacity := of_nat z\<rparr>"
    have "reserve dv sz d r = Inr (?d', ?r')"
      unfolding sz using tail small' int' cs by (intro reserve_tail) (simp_all add: r)
    moreover have "row_content ?d' ?r' = segment d b s"
      using bc le small' int' by (simp add: row_content_def r unat_of_nat64 segment_def)
    moreover have "row_ok ?d' ?r'"
      using bc le tail small' int' of_nat_le64 [of s z]
      by (simp add: row_ok_def r unat_of_nat64)
    ultimately show ?thesis
      using tail cmp rc re sz
      by (intro exI [of _ ?d'] exI [of _ ?r']) (simp add: r)
  qed
qed

lemma pop_back_nonempty:
  fixes d :: "'a list"
  assumes ok: "row_ok d r" and ne: "m_size r \<noteq> 0"
  shows "pop_back d r = Inr (d, r\<lparr>m_size := m_size r - 1\<rparr>)"
proof -
  have s0: "0 < unat (m_size r)" using ne by (simp add: unat_gt_0)
  have "unat (m_begin_index r) + unat (m_size r) \<le> length d"
    using ok by (simp add: row_ok_def word_le_nat_alt)
  then have g: "0 < row_end r \<and> row_end r - 1 < length d"
    using s0 by (simp add: row_end_def)
  have "m_size r - 1 \<le> m_size r" using ne by (simp add: word_le_nat_alt unat_minus_one)
  moreover have "m_size r \<le> m_capacity r" using ok by (simp add: row_ok_def)
  ultimately have "m_size r - 1 \<le> m_capacity r" by (rule order_trans)
  then have "max (m_size r - 1) (m_capacity r) = m_capacity r" by (simp add: max_def)
  then show ?thesis
    using g by (simp add: pop_back_def update_def begin_index_def)
qed

lemma pop_back_empty:
  fixes d :: "'a list"
  assumes "m_size r = 0"
  shows "pop_back d r
     = (if 0 < unat (m_begin_index r) \<and> unat (m_begin_index r) - 1 < length d
        then Inr (d, r\<lparr>m_size := - 1, m_capacity := - 1\<rparr>) else Inl Undefined)"
proof -
  have "max (- 1) (m_capacity r) = (- 1 :: size_t)"
    by (metis max.absorb1 word_n1_ge)
  then show ?thesis
    using assms by (simp add: pop_back_def update_def begin_index_def row_end_def)
qed

subsection \<open>\<open>insert\<close> followed by \<open>erase\<close>\<close>

lemma insert_then_erase:
  fixes d :: "'a list"
  assumes ok: "row_ok d r" and ps: "p \<le> unat (m_size r)"
    and small: "length d + unat (m_size r) + length xs \<le> max_size"
    and int: "unat (m_size r) + length xs < 2 ^ 31"
  shows "\<exists>d1 r1 it d2 r2 it2.
           insert_range dv (row_begin r + p) xs d r = Inr (d1, r1, it)
         \<and> erase_range it (it + length xs) d1 r1 = Inr (d2, r2, it2)
         \<and> row_content d2 r2 = row_content d r \<and> m_size r2 = m_size r"
proof -
  let ?k = "length xs"
  let ?c = "row_content d r"
  have int0: "unat (m_size r) < 2 ^ 31" using int by simp
  from insert_range_spec [OF ok ps small int0, of dv] obtain d1 r1
    where ins: "insert_range dv (row_begin r + p) xs d r = Inr (d1, r1, row_begin r1 + p)"
      and c1: "row_content d1 r1 = take p ?c @ xs @ drop p ?c"
      and s1: "unat (m_size r1) = unat (m_size r) + ?k"
      and ok1: "row_ok d1 r1"
      and l1: "length d1 \<le> length d + unat (m_size r) + ?k"
    by blast
  have small1: "length d1 \<le> max_size" using l1 small by simp
  have int1: "unat (m_size r1) < 2 ^ 31" using s1 int by simp
  have pk: "p + ?k \<le> unat (m_size r1)" using ps s1 by simp
  from erase_range_spec [OF ok1 _ pk small1 int1, of p] obtain d2 r2
    where er: "erase_range (row_begin r1 + p) (row_begin r1 + (p + ?k)) d1 r1
                 = Inr (d2, r2, row_begin r2 + p)"
      and c2: "row_content d2 r2 = take p (row_content d1 r1) @ drop (p + ?k) (row_content d1 r1)"
      and s2: "unat (m_size r2) = unat (m_size r1) - (p + ?k - p)"
    by auto
  have "unat (m_begin_index r) + unat (m_size r) \<le> length d"
    using ok by (simp add: row_ok_def word_le_nat_alt)
  then have lc: "length ?c = unat (m_size r)"
    by (simp add: row_content_def length_segment)
  have "row_content d2 r2 = ?c"
    using c2 c1 lc ps by (simp add: min_def)
  moreover have "m_size r2 = m_size r"
    using s2 s1 by (simp add: word_unat_eq_iff)
  ultimately show ?thesis
    using ins er by (auto simp add: add.assoc)
qed

section \<open>Compaction\<close>

text \<open>What \<open>compact()\<close> does on a structure whose rows have their elements inside the buffer
  and hold fewer than \<open>2 ^ 31\<close> elements together (\<open>nelement()\<close> adds them up in an \<open>int\<close>):
  the new buffer is the rows' contents one after the other, every row keeps its length
  and content, a non-empty row gets capacity equal to its length, and an empty row is
  left as it was.\<close>

lemma copy_loop_closed:
  "it \<le> to \<Longrightarrow> to \<le> length src \<Longrightarrow> length data + (to - it) \<le> max_size \<Longrightarrow>
   copy_loop src it to data = Inr (data @ segment src it (to - it))"
proof (induction src it to data rule: copy_loop.induct)
  case (1 src it to data)
  show ?case
  proof (cases "it = to")
    case True
    then show ?thesis by (simp add: segment_def)
  next
    case False
    then have lt: "it < to" "it < length src" using "1.prems" by simp_all
    have eb: "emplace_back data (src ! it) = Inr (data @ [src ! it])"
      using "1.prems" lt by (simp add: emplace_back_def)
    have ih: "copy_loop src (Suc it) to (data @ [src ! it])
        = Inr ((data @ [src ! it]) @ segment src (Suc it) (to - Suc it))"
      using "1.prems" lt False eb by (intro "1.IH") simp_all
    have sg: "segment src it (to - it) = src ! it # segment src (Suc it) (to - Suc it)"
      using lt segment_Suc_front [of it src "to - Suc it"] by (simp add: Suc_diff_Suc)
    show ?thesis
      using False lt eb ih sg by (subst copy_loop.simps) simp
  qed
qed

lemma nelement_step:
  assumes "a + unat w < 2 ^ 31"
  shows "(ucast ((scast (of_nat a :: 32 word) :: size_t) + w) :: 32 word) = of_nat (a + unat w)"
proof -
  have a: "a < 2 ^ 31" using assms by simp
  have "sint (of_nat a :: 32 word) = int a"
    using a by (simp add: signed_of_nat signed_take_bit_int_eq_self)
  then have "(scast (of_nat a :: 32 word) :: size_t) = of_nat a"
    by (simp add: scast_eq)
  then have s: "(scast (of_nat a :: 32 word) :: size_t) + w = of_nat (a + unat w)"
    by simp
  have "(ucast (of_nat (a + unat w) :: size_t) :: 32 word) = of_nat (a + unat w)"
    using assms by (simp add: unsigned_of_nat take_bit_nat_eq_self del: of_nat_add)
  then show ?thesis unfolding s .
qed


lemma scast_of_nat32: "a < 2 ^ 31 \<Longrightarrow> (scast (of_nat a :: 32 word) :: size_t) = of_nat a"
proof -
  assume a: "a < 2 ^ 31"
  have "sint (of_nat a :: 32 word) = int a"
    using a by (simp add: signed_of_nat signed_take_bit_int_eq_self)
  then show ?thesis by (simp add: scast_eq)
qed

lemma nelement_fold:
  "a + live rows < 2 ^ 31 \<Longrightarrow>
   fold (\<lambda>r acc. (ucast ((scast acc :: size_t) + m_size r) :: 32 word)) rows (of_nat a)
     = of_nat (a + live rows)"
proof (induction rows arbitrary: a)
  case Nil
  then show ?case by (simp add: live_def)
next
  case (Cons r rows)
  have "a + unat (m_size r) < 2 ^ 31" using Cons.prems by (simp add: live_def)
  then have st: "(ucast ((scast (of_nat a :: 32 word) :: size_t) + m_size r) :: 32 word)
      = of_nat (a + unat (m_size r))"
    by (rule nelement_step)
  have "a + unat (m_size r) + live rows < 2 ^ 31" using Cons.prems by (simp add: live_def)
  from Cons.IH [OF this] show ?case
    unfolding fold_Cons comp_def st by (simp add: live_def add.assoc)
qed

lemma nelement_live: "live (m_rows v) < 2 ^ 31 \<Longrightarrow> nelement v = of_nat (live (m_rows v))"
  using nelement_fold [of 0 "m_rows v"] scast_of_nat32 [of "live (m_rows v)"]
  by (simp add: nelement_def)

lemma row_content_length:
  "unat (m_begin_index r) + unat (m_size r) \<le> length d \<Longrightarrow>
   length (row_content d r) = unat (m_size r)"
  by (simp add: row_content_def length_segment)

lemma live_content:
  "\<forall>r \<in> set rows. unat (m_begin_index r) + unat (m_size r) \<le> length src \<Longrightarrow>
   length (concat (map (row_content src) rows)) = live rows"
  by (induction rows) (simp_all add: live_def row_content_length)

lemma compact_rows_spec:
  fixes src :: "'a list"
  assumes "\<forall>r \<in> set rows. unat (m_begin_index r) + unat (m_size r) \<le> length src"
    and "length data + live rows \<le> max_size"
  shows "\<exists>rows'. compact_rows src rows data
             = Inr (rows', data @ concat (map (row_content src) rows))
           \<and> list_all2 (\<lambda>r r'. m_size r' = m_size r
                 \<and> (m_size r = 0 \<longrightarrow> r' = r)
                 \<and> (m_size r \<noteq> 0 \<longrightarrow> m_capacity r' = m_size r)
                 \<and> row_content (data @ concat (map (row_content src) rows)) r'
                     = row_content src r) rows rows'"
  using assms
proof (induction rows arbitrary: data)
  case Nil
  then show ?case by simp
next
  case (Cons row rows)
  let ?c = "row_content src row"
  let ?s = "unat (m_size row)"
  let ?rest = "concat (map (row_content src) rows)"
  have inside: "unat (m_begin_index row) + ?s \<le> length src" using Cons.prems(1) by simp
  have lc: "length ?c = ?s" using inside by (rule row_content_length)
  have tl: "\<forall>r \<in> set rows. unat (m_begin_index r) + unat (m_size r) \<le> length src"
    using Cons.prems(1) by simp
  have lv: "live (row # rows) = ?s + live rows" by (simp add: live_def)
  show ?case
  proof (cases "m_size row = 0")
    case True
    then have c0: "?c = []" by (simp add: row_content_def segment_def)
    have "length data + live rows \<le> max_size" using Cons.prems(2) lv by simp
    from Cons.IH [OF tl this] obtain rows'
      where cr: "compact_rows src rows data = Inr (rows', data @ ?rest)"
        and rel: "list_all2 (\<lambda>r r'. m_size r' = m_size r
                 \<and> (m_size r = 0 \<longrightarrow> r' = r)
                 \<and> (m_size r \<noteq> 0 \<longrightarrow> m_capacity r' = m_size r)
                 \<and> row_content (data @ ?rest) r' = row_content src r) rows rows'"
      by blast
    have "compact_rows src (row # rows) data = Inr (row # rows', data @ ?rest)"
      using True cr by (simp add: empty_row_def)
    moreover have "row_content (data @ ?rest) row = ?c"
      using True c0 by (simp add: row_content_def segment_def)
    ultimately show ?thesis
      using True c0 rel by (intro exI [of _ "row # rows'"]) simp
  next
    case False
    let ?data1 = "data @ ?c"
    let ?row' = "\<lparr>m_begin_index = of_nat (length data), m_size = m_size row,
                  m_capacity = m_size row\<rparr>"
    have big: "length data + ?s + live rows < 2 ^ 63"
      using Cons.prems(2) lv by (simp add: max_size_def)
    have cl: "copy_loop src (row_begin row) (row_end row) data = Inr ?data1"
      using inside Cons.prems(2) lv
        copy_loop_closed [of "row_begin row" "row_end row" src data]
      by (simp add: row_begin_def row_end_def row_content_def)
    have "data_size ?data1 - m_size row = (of_nat (length data) :: size_t)"
      using lc by (simp add: data_size_def)
    then have upd: "update (data_size ?data1 - m_size row) (m_size row) (shrink_to_fit row) = ?row'"
      by (simp add: update_def shrink_to_fit_def)
    have "length ?data1 + live rows \<le> max_size" using Cons.prems(2) lv lc by simp
    from Cons.IH [OF tl this] obtain rows'
      where cr: "compact_rows src rows ?data1 = Inr (rows', ?data1 @ ?rest)"
        and rel: "list_all2 (\<lambda>r r'. m_size r' = m_size r
                 \<and> (m_size r = 0 \<longrightarrow> r' = r)
                 \<and> (m_size r \<noteq> 0 \<longrightarrow> m_capacity r' = m_size r)
                 \<and> row_content (?data1 @ ?rest) r' = row_content src r) rows rows'"
      by blast
    have "compact_rows src (row # rows) data = Inr (?row' # rows', ?data1 @ ?rest)"
      using False cl upd cr by (simp add: empty_row_def Let_def)
    moreover have "row_content (?data1 @ ?rest) ?row' = ?c"
      using big lc by (simp add: row_content_def segment_def unat_of_nat64)
    ultimately show ?thesis
      using False rel by (intro exI [of _ "?row' # rows'"]) simp
  qed
qed

lemma compact_spec:
  fixes v :: "'a vector2d"
  assumes "\<forall>r \<in> set (m_rows v). unat (m_begin_index r) + unat (m_size r) \<le> length (m_data v)"
    and "live (m_rows v) < 2 ^ 31"
  shows "\<exists>v'. compact v = Inr v'
           \<and> m_data v' = concat (map (row_content (m_data v)) (m_rows v))
           \<and> length (m_data v') = live (m_rows v)
           \<and> list_all2 (\<lambda>r r'. m_size r' = m_size r
                 \<and> (m_size r = 0 \<longrightarrow> r' = r)
                 \<and> (m_size r \<noteq> 0 \<longrightarrow> m_capacity r' = m_size r)
                 \<and> row_content (m_data v') r' = row_content (m_data v) r) (m_rows v) (m_rows v')"
proof -
  have ne: "nelement v = of_nat (live (m_rows v))" using assms(2) by (rule nelement_live)
  have vr: "vec_reserve ([] :: 'a list) (nelement v) = Inr []"
    using assms(2) by (simp add: ne vec_reserve_def unat_of_nat64 max_size_def)
  have "length ([] :: 'a list) + live (m_rows v) \<le> max_size"
    using assms(2) by (simp add: max_size_def)
  from compact_rows_spec [OF assms(1) this] obtain rows'
    where cr: "compact_rows (m_data v) (m_rows v) []
                 = Inr (rows', concat (map (row_content (m_data v)) (m_rows v)))"
      and rel: "list_all2 (\<lambda>r r'. m_size r' = m_size r
                 \<and> (m_size r = 0 \<longrightarrow> r' = r)
                 \<and> (m_size r \<noteq> 0 \<longrightarrow> m_capacity r' = m_size r)
                 \<and> row_content (concat (map (row_content (m_data v)) (m_rows v))) r'
                     = row_content (m_data v) r) (m_rows v) rows'"
    by auto
  let ?v' = "\<lparr>m_rows = rows', m_data = concat (map (row_content (m_data v)) (m_rows v))\<rparr>"
  have "compact v = Inr ?v'" using vr cr by (simp add: compact_def)
  then show ?thesis
    using rel live_content [OF assms(1)] by (intro exI [of _ ?v']) simp
qed

section \<open>The span invariant under the row operations\<close>

text \<open>A row operation that does not shorten the buffer and leaves its own row well placed
  keeps every span inside the buffer.\<close>

lemma spans_inside_row_update:
  assumes "spans_inside v" and "length (m_data v) \<le> length d'" and "row_ok d' r'"
  shows "spans_inside \<lparr>m_rows = (m_rows v)[i := r'], m_data = d'\<rparr>"
proof -
  have "unat (m_begin_index r0) + unat (m_capacity r0) \<le> length d'"
    if "r0 \<in> set ((m_rows v)[i := r'])" for r0
  proof (cases "r0 = r'")
    case True
    then show ?thesis using assms(3) by (simp add: row_ok_def)
  next
    case False
    then have "r0 \<in> set (m_rows v)"
      using that set_update_subset_insert [of "m_rows v" i r'] by auto
    then show ?thesis
      using assms(1,2) by (auto simp add: spans_inside_def list_all_iff)
  qed
  then show ?thesis by (simp add: spans_inside_def list_all_iff)
qed

lemma row_operations_keep_spans:
  fixes v :: "'a vector2d"
  assumes inv: "spans_inside v" and ok: "row_ok (m_data v) r"
    and small: "length (m_data v) + unat (m_size r) + length xs + unat n + 1 \<le> max_size"
    and int: "unat (m_capacity r) + length xs < 2 ^ 31"
    and p: "p \<le> unat (m_size r)" and fl: "f \<le> l" "l \<le> unat (m_size r)"
  shows "\<exists>d' r'. push_back dv x (m_data v) r = Inr (d', r')
            \<and> spans_inside \<lparr>m_rows = (m_rows v)[i := r'], m_data = d'\<rparr>"
    and "\<exists>d' r' it. insert_range dv (row_begin r + p) xs (m_data v) r = Inr (d', r', it)
            \<and> spans_inside \<lparr>m_rows = (m_rows v)[i := r'], m_data = d'\<rparr>"
    and "\<exists>d' r' it. erase_range (row_begin r + f) (row_begin r + l) (m_data v) r = Inr (d', r', it)
            \<and> spans_inside \<lparr>m_rows = (m_rows v)[i := r'], m_data = d'\<rparr>"
    and "\<exists>d' r'. reserve dv n (m_data v) r = Inr (d', r')
            \<and> spans_inside \<lparr>m_rows = (m_rows v)[i := r'], m_data = d'\<rparr>"
proof -
  have sc: "unat (m_size r) \<le> unat (m_capacity r)"
    using ok by (simp add: row_ok_def word_le_nat_alt)
  have ints: "unat (m_size r) < 2 ^ 31" and intc: "unat (m_capacity r) < 2 ^ 31"
    using int sc by simp_all
  have s1: "length (m_data v) + unat (m_size r) + 1 \<le> max_size"
    and s2: "length (m_data v) + unat (m_size r) + length xs \<le> max_size"
    and s3: "length (m_data v) \<le> max_size"
    and s4: "length (m_data v) + unat n \<le> max_size"
    using small by simp_all
  show "\<exists>d' r'. push_back dv x (m_data v) r = Inr (d', r')
            \<and> spans_inside \<lparr>m_rows = (m_rows v)[i := r'], m_data = d'\<rparr>"
    using push_back_spec [OF ok s1 ints, of dv x] spans_inside_row_update [OF inv] by blast
  show "\<exists>d' r' it. insert_range dv (row_begin r + p) xs (m_data v) r = Inr (d', r', it)
            \<and> spans_inside \<lparr>m_rows = (m_rows v)[i := r'], m_data = d'\<rparr>"
    using insert_range_spec [OF ok p s2 ints, of dv] spans_inside_row_update [OF inv] by blast
  show "\<exists>d' r' it. erase_range (row_begin r + f) (row_begin r + l) (m_data v) r = Inr (d', r', it)
            \<and> spans_inside \<lparr>m_rows = (m_rows v)[i := r'], m_data = d'\<rparr>"
    using erase_range_spec [OF ok fl s3 ints] spans_inside_row_update [OF inv]
    by (metis order_refl)
  show "\<exists>d' r'. reserve dv n (m_data v) r = Inr (d', r')
            \<and> spans_inside \<lparr>m_rows = (m_rows v)[i := r'], m_data = d'\<rparr>"
    using reserve_spec [OF ok s4 intc, of dv] spans_inside_row_update [OF inv] by blast
qed

section \<open>The range and position checks\<close>

text \<open>\<open>range\<close> is a \<open>size_t\<close>, so the branch behind \<open>range < 0\<close> is never taken (nor is the
  one behind \<open>fdiff < 0\<close>): \<open>erase\<close> is the function without them.\<close>

lemma erase_range_test_dead:
  "erase_range ifirst ilast d r
     = (let fdiff = (of_nat ifirst - of_nat (row_begin r) :: size_t);
            ldiff = (of_nat ilast - of_nat (row_begin r) :: size_t);
            range = (of_nat ilast - of_nat ifirst :: size_t)
        in if fdiff > m_size r \<or> ldiff > m_size r then Inl OutOfRange
           else if range = 0 then Inr (d, r, row_begin r + unat ldiff)
           else
             and_then (destroy_loop d (row_begin r + unat fdiff) (row_begin r + unat ldiff)) (\<lambda>d1.
             and_then (move_asc d1 (begin_index r + ldiff) (end_index r)
                         (begin_index r + ldiff - range)) (\<lambda>d2.
             let r' = update (begin_index r) (m_size r - range) r
             in Inr (d2, r', row_begin r' + unat fdiff))))"
  by (simp add: erase_range_def Let_def)

text \<open>The structure-level \<open>erase\<close> does reject a position beyond the row count.\<close>

lemma erase_rows_beyond_end:
  assumes "length (m_rows v) < ifirst \<or> length (m_rows v) < ilast"
    and "ifirst < 2 ^ 64" and "ilast < 2 ^ 64"
  shows "erase_rows ifirst ilast v = Inl OutOfRange"
proof -
  have n: "length (m_rows v) < 2 ^ 64" using assms by auto
  have "(rows_size v < (of_nat ifirst :: size_t)) = (length (m_rows v) < ifirst)"
    using assms n by (simp add: rows_size_def of_nat_less64)
  moreover have "(rows_size v < (of_nat ilast :: size_t)) = (length (m_rows v) < ilast)"
    using assms n by (simp add: rows_size_def of_nat_less64)
  ultimately show ?thesis
    using assms(1) by (auto simp add: erase_rows_def Let_def)
qed

section \<open>Rows beyond the range of the \<open>int\<close> counter\<close>

text \<open>\<open>move_desc\<close> and \<open>move_asc\<close> count the slots they move in an \<open>int\<close>.  When
  \<open>iend - ibegin\<close> is \<open>2 ^ 31\<close> (\<open>2 ^ 31 + 1\<close> slots for \<open>move_desc\<close>, whose range is
  inclusive, \<open>2 ^ 31\<close> slots for \<open>move_asc\<close>), \<open>static_cast<int>\<close> makes it \<open>- 2 ^ 31\<close> and
  the loop body never runs.  The callers go on as if the slots had been moved.\<close>

lemma move_asc_beyond_int: "move_asc d ibegin (ibegin + 2 ^ 31) new_ibegin = Inr d"
  by (simp add: move_asc_def to_int_def)

lemma erase_first_unmoved:
  fixes d :: "'a list"
  assumes ok: "row_ok d r" and small: "length d \<le> max_size"
    and s: "m_size r \<noteq> 0" and neg: "to_int (m_size r - 1) \<le> 0"
  shows "erase_range (row_begin r) (row_begin r + 1) d r
           = Inr (d, r\<lparr>m_size := m_size r - 1\<rparr>, row_begin r)"
proof -
  have n64: "length d < 2 ^ 64" using small by (simp add: max_size_def)
  with ok obtain b s c
    where r: "r = \<lparr>m_begin_index = of_nat b, m_size = of_nat s, m_capacity = of_nat c\<rparr>"
      and b: "b = unat (m_begin_index r)" and s': "s = unat (m_size r)"
      and bc: "b + c \<le> length d" and le: "s \<le> c"
    by (auto elim!: row_ok_numbers)
  have s0: "0 < s" using s s' by (simp add: unat_gt_0)
  have rb: "row_begin r = b" by (simp add: row_begin_def b)
  have fdiff: "(of_nat b - of_nat b :: size_t) = 0" by simp
  have ldiff: "(of_nat (b + 1) - of_nat b :: size_t) = 1" by simp
  have g1: "(m_size r < (0 :: size_t) \<or> (0 :: size_t) < 0) = False" by simp
  have g2: "(m_size r < (1 :: size_t) \<or> (1 :: size_t) < 0) = False"
    using s by (simp add: word_less_1)
  have g3: "((1 :: size_t) < 0) = False" "((1 :: size_t) = 0) = False" by simp_all
  have dl: "destroy_loop d (b + unat (0 :: size_t)) (b + unat (1 :: size_t)) = Inr d"
    using bc le s0 by (intro destroy_loop_inside) simp_all
  have e: "end_index r - (begin_index r + 1) = m_size r - 1"
    by (simp add: end_index_def begin_index_def)
  have ma: "move_asc d (begin_index r + 1) (end_index r) (begin_index r + 1 - 1) = Inr d"
    unfolding move_asc_def Let_def e using neg by simp
  have "m_size r - 1 \<le> m_size r" using s by (simp add: word_le_nat_alt unat_minus_one)
  then have "m_size r - 1 \<le> m_capacity r" using ok by (auto simp add: row_ok_def)
  then have upd: "update (begin_index r) (m_size r - 1) r = r\<lparr>m_size := m_size r - 1\<rparr>"
    by (simp add: update_def begin_index_def max_def)
  have rb': "row_begin (r\<lparr>m_size := m_size r - 1\<rparr>) = b" using rb by (simp add: row_begin_def)
  show ?thesis
    using s
    unfolding erase_range_def Let_def rb fdiff ldiff g1 g2 g3 if_False dl ma and_then_Inr upd rb'
    by (simp add: word_less_1)
qed


lemma insert_front_unmoved:
  fixes d :: "'a list"
  assumes ok: "row_ok d r" and sz: "m_size r = 2 ^ 31 + 1"
    and tail: "row_end r = length d" and small: "length d < max_size"
  shows "insert_range dv (row_begin r) [x] d r
           = Inr (d[row_begin r := x] @ [dv],
                  \<lparr>m_begin_index = m_begin_index r, m_size = 2 ^ 31 + 2, m_capacity = 2 ^ 31 + 2\<rparr>,
                  row_begin r)"
proof -
  have n64: "length d < 2 ^ 64" using small by (simp add: max_size_def)
  with ok obtain b s c
    where r: "r = \<lparr>m_begin_index = of_nat b, m_size = of_nat s, m_capacity = of_nat c\<rparr>"
      and b: "b = unat (m_begin_index r)" and s: "s = unat (m_size r)"
      and c: "c = unat (m_capacity r)"
      and bc: "b + c \<le> length d" and le: "s \<le> c"
    by (auto elim!: row_ok_numbers)
  have sn: "s = 2 ^ 31 + 1" using s sz by simp
  have bs: "b + s = length d" using tail b s by (simp add: row_end_def)
  have cs: "c = s" using bs bc le by simp
  have "m_capacity r = m_size r" using c cs s by (simp add: word_unat_eq_iff)
  then have cap: "m_capacity r = 2 ^ 31 + 1" using sz by simp
  have rb: "row_begin r = b" by (simp add: row_begin_def b)
  have bi: "begin_index r = of_nat b" by (simp add: begin_index_def b)
  have diff: "(of_nat b - of_nat b :: size_t) = 0" by simp
  have g1: "(m_size r < (0 :: size_t) \<or> (0 :: size_t) < 0) = False" by simp
  have range: "(of_nat (length [x]) :: size_t) = 1" by simp
  have g2: "((1 :: size_t) < 0) = False" "((1 :: size_t) = 0) = False" by simp_all
  have g3: "(m_size r + 1 \<le> m_capacity r) = False" by (simp add: sz cap)
  have g4: "(row_end r \<noteq> length d) = False" using tail by simp
  have a1: "append_data d 1 dv = Inr (d @ [dv])"
    using small append_data_words [of 1 1 d dv] by simp
  have e: "end_index r - 1 = begin_index r + 0 + 2 ^ 31"
    by (simp add: end_index_def begin_index_def sz)
  have m1: "move_desc (d @ [dv]) (begin_index r + 0) (end_index r - 1) (begin_index r + 0 + 1)
              = Inr (d @ [dv])"
    unfolding e by (rule move_desc_beyond_int)
  have bl: "b < length d" using bs sn by simp
  have w1: "write_range (d @ [dv]) (begin_index r + 0) 0 [x] = Inr (d[b := x] @ [dv])"
    using bl small put_of_nat [of b "d @ [dv]" x]
    by (simp add: bi max_size_def list_update_append1)
  have upd: "update (begin_index r) (m_size r + 1) r
      = \<lparr>m_begin_index = m_begin_index r, m_size = 2 ^ 31 + 2, m_capacity = 2 ^ 31 + 2\<rparr>"
    by (simp add: update_def begin_index_def sz cap max_def)
  have rb': "row_begin \<lparr>m_begin_index = m_begin_index r, m_size = 2 ^ 31 + 2 :: size_t,
      m_capacity = 2 ^ 31 + 2 :: size_t\<rparr> = b"
    by (simp add: row_begin_def b)
  show ?thesis
    unfolding insert_range_def Let_def rb diff range g1 g2 g3 g4 if_False a1 m1 w1
      and_then_Inr upd rb'
    by simp
qed

lemma push_back_relocate_unmoved:
  fixes d :: "'a list"
  assumes ok: "row_ok d r" and sz: "m_size r = 2 ^ 31 + 1" and full: "m_capacity r = m_size r"
    and nt: "row_end r \<noteq> length d" and small: "length d + 2 ^ 31 + 2 \<le> max_size"
  shows "push_back dv v d r
           = Inr (d @ replicate (2 ^ 31 + 1) dv @ [v],
                  \<lparr>m_begin_index = of_nat (length d), m_size = 2 ^ 31 + 2,
                   m_capacity = 2 ^ 31 + 2\<rparr>)"
proof -
  let ?n = "length d"
  have n64: "length d < 2 ^ 64" using small by (simp add: max_size_def)
  with ok obtain b s c
    where r: "r = \<lparr>m_begin_index = of_nat b, m_size = of_nat s, m_capacity = of_nat c\<rparr>"
      and b: "b = unat (m_begin_index r)" and s: "s = unat (m_size r)"
      and c: "c = unat (m_capacity r)"
      and bc: "b + c \<le> length d" and le: "s \<le> c"
    by (auto elim!: row_ok_numbers)
  have sn: "s = 2 ^ 31 + 1" using s sz by simp
  have cs: "c = s" using full c s by simp
  have bs: "b + s < ?n" using nt b s bc cs by (simp add: row_end_def)
  have g1: "(m_size r < m_capacity r) = False" using full by simp
  have ei: "end_index r = of_nat (b + s)" by (simp add: end_index_def b s)
  have "(of_nat (b + s) :: size_t) \<noteq> of_nat ?n"
    using bs n64 of_nat_eq64 [of "b + s" ?n] by simp
  then have g2: "(\<not> empty_row r \<and> end_index r \<noteq> data_size d) = True"
    by (simp add: empty_row_def sz ei data_size_def)
  let ?d1 = "d @ replicate (2 ^ 31 + 2) dv"
  have a1: "append_data d (m_size r + 1) dv = Inr ?d1"
    using small by (intro append_data_words) (simp_all add: sz)
  have e: "end_index r - 1 = begin_index r + 2 ^ 31"
    by (simp add: end_index_def begin_index_def sz)
  have m1: "move_desc ?d1 (begin_index r) (end_index r - 1) (data_size ?d1 - m_size r - 1)
              = Inr ?d1"
    unfolding e by (rule move_desc_beyond_int)
  have ds: "data_size ?d1 - 1 = of_nat (?n + 2 ^ 31 + 1)" by (simp add: data_size_def)
  have "?d1[?n + 2 ^ 31 + 1 := v] = d @ (replicate (2 ^ 31 + 2) dv)[2 ^ 31 + 1 := v]"
    by (simp add: list_update_append)
  moreover have "(replicate (2 ^ 31 + 2) dv)[2 ^ 31 + 1 := v] = replicate (2 ^ 31 + 1) dv @ [v]"
    using replicate_Suc [of "2 ^ 31 + 1" dv] 
    by (metis (no_types) add_2_eq_Suc' add_Suc_right length_replicate list_update_length
        replicate_append_same One_nat_def Suc_eq_plus1 replicate_Suc)
  ultimately have p1: "put ?d1 (data_size ?d1 - 1) v = Inr (d @ replicate (2 ^ 31 + 1) dv @ [v])"
    unfolding ds using small put_of_nat [of "?n + 2 ^ 31 + 1" ?d1 v]
    by (simp add: max_size_def)
  have upd: "update (data_size (d @ replicate (2 ^ 31 + 1) dv @ [v]) - m_size r - 1) (m_size r + 1) r
      = \<lparr>m_begin_index = of_nat ?n, m_size = 2 ^ 31 + 2, m_capacity = 2 ^ 31 + 2\<rparr>"
    by (simp add: update_def data_size_def sz full max_def)
  show ?thesis
    unfolding push_back_def g1 g2 if_False if_True a1 m1 p1 and_then_Inr upd
    by simp
qed

lemma reserve_relocate_unmoved:
  fixes d :: "'a list"
  assumes ok: "row_ok d r" and cap: "m_capacity r = 2 ^ 31 + 1" and n: "m_capacity r < n"
    and nt: "row_end r \<noteq> length d" and small: "length d + unat n \<le> max_size"
  shows "reserve dv n d r
           = Inr (d @ replicate (unat n) dv,
                  \<lparr>m_begin_index = of_nat (length d), m_size = m_size r, m_capacity = n\<rparr>)"
proof -
  let ?n = "length d"
  let ?d1 = "d @ replicate (unat n) dv"
  have g1: "(n \<le> m_capacity r) = False" using n by simp
  have g2: "(row_end r \<noteq> length d) = True" using nt by simp
  have a1: "append_data d n dv = Inr ?d1"
    using small by (intro append_data_words) simp_all
  have e: "begin_index r + m_capacity r - 1 = begin_index r + 2 ^ 31"
    by (simp add: cap)
  have m1: "move_desc ?d1 (begin_index r) (begin_index r + m_capacity r - 1) (data_size ?d1 - n)
              = Inr ?d1"
    unfolding e by (rule move_desc_beyond_int)
  have le: "m_size r \<le> m_capacity r" using ok by (simp add: row_ok_def)
  have upd: "(update (data_size ?d1 - n) (m_size r) r)\<lparr>m_capacity := n\<rparr>
      = \<lparr>m_begin_index = of_nat ?n, m_size = m_size r, m_capacity = n\<rparr>"
    by (simp add: update_def data_size_def)
  show ?thesis
    unfolding reserve_def g1 g2 if_False if_True a1 m1 and_then_Inr upd
    by simp
qed

lemma tail_row_content:
  "row_end r = length d \<Longrightarrow> row_content d r = drop (row_begin r) d"
  by (simp add: row_end_def row_content_def row_begin_def segment_def)

section \<open>The examples of the specification\<close>

text \<open>The rows of the specification's examples are far below the limit of the counter;
  the operations do on them what the specification says.\<close>

lemma insert_range_example:
  "(\<exists>d' r'. insert_range 0 1 [9, 9] [1, 2, 3 :: int]
                 \<lparr>m_begin_index = 0, m_size = 3, m_capacity = 3\<rparr> = Inr (d', r', row_begin r' + 1)
          \<and> row_content d' r' = [1, 9, 9, 2, 3] \<and> unat (m_size r') = 5)
   \<and> insert_range 0 1 [] [1, 2, 3 :: int] \<lparr>m_begin_index = 0, m_size = 3, m_capacity = 3\<rparr>
        = Inr ([1, 2, 3], \<lparr>m_begin_index = 0, m_size = 3, m_capacity = 3\<rparr>, 1)"
proof -
  let ?r = "\<lparr>m_begin_index = 0, m_size = 3, m_capacity = 3\<rparr>"
  have ok: "row_ok [1, 2, 3 :: int] ?r" by (simp add: row_ok_def)
  have p: "1 \<le> unat (m_size ?r)" by simp
  have small: "length [1, 2, 3 :: int] + unat (m_size ?r) + length [9, 9 :: int] \<le> max_size"
    by (simp add: max_size_def)
  have small0: "length [1, 2, 3 :: int] + unat (m_size ?r) + length ([] :: int list) \<le> max_size"
    by (simp add: max_size_def)
  have int: "unat (m_size ?r) < 2 ^ 31" by simp
  show ?thesis
    using insert_range_spec [OF ok p small int, of 0] insert_range_spec [OF ok p small0 int, of 0]
    by (auto simp add: row_begin_def row_content_def segment_def)
qed

lemma push_back_example:
  "\<exists>d' r'. push_back 0 3 [1, 2, 8 :: int] \<lparr>m_begin_index = 0, m_size = 2, m_capacity = 2\<rparr>
                  = Inr (d', r')
          \<and> row_content d' r' = [1, 2, 3] \<and> unat (m_size r') = 3 \<and> m_size r' \<le> m_capacity r'
          \<and> length d' = 6 \<and> row_begin r' = 3 \<and> take 3 d' = [1, 2, 8]"
proof -
  let ?r = "\<lparr>m_begin_index = 0, m_size = 2, m_capacity = 2\<rparr>"
  have ok: "row_ok [1, 2, 8 :: int] ?r" by (simp add: row_ok_def)
  have small: "length [1, 2, 8 :: int] + unat (m_size ?r) + 1 \<le> max_size"
    by (simp add: max_size_def)
  have int: "unat (m_size ?r) < 2 ^ 31" by simp
  have n6: "(6::nat) = Suc (Suc (Suc (Suc (Suc (Suc 0)))))" and n3: "(3::nat) = Suc (Suc (Suc 0))"
    by simp_all
  show ?thesis
    using push_back_spec [OF ok small int, of 0 3]
    by (auto simp add: row_content_def segment_def row_ok_def row_begin_def n6 n3)
qed

lemma erase_range_example:
  "(\<exists>d' r'. erase_range 1 3 [1, 2, 3, 4, 5 :: int]
                  \<lparr>m_begin_index = 0, m_size = 5, m_capacity = 5\<rparr> = Inr (d', r', row_begin r' + 1)
          \<and> row_content d' r' = [1, 4, 5] \<and> unat (m_size r') = 3 \<and> m_capacity r' = 5)
   \<and> erase_range 3 3 [1, 2, 3, 4, 5 :: int] \<lparr>m_begin_index = 0, m_size = 5, m_capacity = 5\<rparr>
        = Inr ([1, 2, 3, 4, 5], \<lparr>m_begin_index = 0, m_size = 5, m_capacity = 5\<rparr>, 3)"
proof -
  let ?r = "\<lparr>m_begin_index = 0, m_size = 5, m_capacity = 5\<rparr>"
  have ok: "row_ok [1, 2, 3, 4, 5 :: int] ?r" by (simp add: row_ok_def)
  have fl: "(1::nat) \<le> 3" and fl0: "(3::nat) \<le> 3" by simp_all
  have ls: "3 \<le> unat (m_size ?r)" by simp
  have small: "length [1, 2, 3, 4, 5 :: int] \<le> max_size" by (simp add: max_size_def)
  have int: "unat (m_size ?r) < 2 ^ 31" by simp
  show ?thesis
    using erase_range_spec [OF ok fl ls small int] erase_range_spec [OF ok fl0 ls small int]
    by (auto simp add: row_begin_def row_content_def segment_def)
qed

lemma reserve_example:
  "reserve 0 3 [1, 2, 3, 4, 5 :: int] \<lparr>m_begin_index = 1, m_size = 2, m_capacity = 3\<rparr>
        = Inr ([1, 2, 3, 4, 5], \<lparr>m_begin_index = 1, m_size = 2, m_capacity = 3\<rparr>)
   \<and> (\<exists>d' r'. reserve 0 4 [1, 2, 3, 4, 5 :: int] \<lparr>m_begin_index = 1, m_size = 2, m_capacity = 3\<rparr>
                  = Inr (d', r')
          \<and> row_content d' r' = [2, 3] \<and> m_size r' = 2 \<and> m_capacity r' = 4
          \<and> m_begin_index r' = 5 \<and> row_ok d' r')"
proof -
  let ?r = "\<lparr>m_begin_index = 1, m_size = 2, m_capacity = 3\<rparr>"
  have ok: "row_ok [1, 2, 3, 4, 5 :: int] ?r" by (simp add: row_ok_def)
  have small3: "length [1, 2, 3, 4, 5 :: int] + unat (3 :: size_t) \<le> max_size"
    by (simp add: max_size_def)
  have small4: "length [1, 2, 3, 4, 5 :: int] + unat (4 :: size_t) \<le> max_size"
    by (simp add: max_size_def)
  have int: "unat (m_capacity ?r) < 2 ^ 31" by simp
  show ?thesis
    using reserve_spec [OF ok small3 int, of 0] reserve_spec [OF ok small4 int, of 0]
    by (auto simp add: row_content_def segment_def row_end_def)
qed

lemma insert_then_erase_example:
  "\<exists>d1 r1 it d2 r2 it2.
         insert_range 0 1 [9, 9] [1, 2, 3, 7 :: int]
           \<lparr>m_begin_index = 0, m_size = 3, m_capacity = 3\<rparr> = Inr (d1, r1, it)
       \<and> erase_range it (it + 2) d1 r1 = Inr (d2, r2, it2)
       \<and> row_content d2 r2 = [1, 2, 3] \<and> m_size r2 = 3"
proof -
  let ?r = "\<lparr>m_begin_index = 0, m_size = 3, m_capacity = 3\<rparr>"
  have ok: "row_ok [1, 2, 3, 7 :: int] ?r" by (simp add: row_ok_def)
  have p: "1 \<le> unat (m_size ?r)" by simp
  have small: "length [1, 2, 3, 7 :: int] + unat (m_size ?r) + length [9, 9 :: int] \<le> max_size"
    by (simp add: max_size_def)
  have int: "unat (m_size ?r) + length [9, 9 :: int] < 2 ^ 31" by simp
  show ?thesis
    using insert_then_erase [OF ok p small int, of 0]
    by (simp add: row_begin_def row_content_def segment_def)
qed

section \<open>The claims\<close>

text \<open>
  In what follows a row \<open>r\<close> of a buffer \<open>d\<close> is well placed (\<open>row_ok d r\<close>) and positions
  inside a row are offsets from \<open>begin()\<close>.  The row operations \<open>insert\<close>, \<open>push_back\<close>,
  \<open>erase\<close> and \<open>reserve\<close> do what is specified on every well-placed row of fewer than
  \<open>2 ^ 31\<close> elements, for \<open>reserve\<close> of fewer than \<open>2 ^ 31\<close> slots (\<open>insert_range_spec\<close>,
  \<open>push_back_spec\<close>, \<open>erase_range_spec\<close>, \<open>reserve_spec\<close>, \<open>insert_then_erase\<close>).  A
  buffer of \<open>char\<close> holds a row of \<open>2 ^ 31 + 1\<close> elements in two gigabytes; on such a row
  the operations return normally with the wrong content.
\<close>

text \<open>
  \<^bold>\<open>C1\<close>.  Row \<open>insert(pos, first, last)\<close> should leave the row holding its old prefix, the
  inserted elements and its old suffix.  On a well-placed row of \<open>2 ^ 31 + 1\<close> elements
  that ends at the end of the buffer, \<open>insert(begin(), x)\<close> appends one slot holding \<open>T()\<close>,
  calls \<open>move_desc\<close> for the \<open>2 ^ 31 + 1\<close> elements, which moves none, and writes \<open>x\<close> over
  the first element: the row then holds \<open>x\<close>, its old elements but the first, and \<open>T()\<close>.
  Where the first two elements differ this is not \<open>x\<close> followed by the old content.
\<close>

theorem row_insert_beyond_int_counter:
  fixes d :: "'a list"
  assumes "row_ok d r" and "m_size r = 2 ^ 31 + 1" and "row_end r = length d"
    and "length d < max_size" and "d ! row_begin r \<noteq> d ! (row_begin r + 1)"
  shows "insert_range dv (row_begin r) [x] d r
           = Inr (d[row_begin r := x] @ [dv], r\<lparr>m_size := 2 ^ 31 + 2, m_capacity := 2 ^ 31 + 2\<rparr>,
                  row_begin r)
       \<and> row_content (d[row_begin r := x] @ [dv])
            (r\<lparr>m_size := 2 ^ 31 + 2, m_capacity := 2 ^ 31 + 2\<rparr>)
           = x # tl (row_content d r) @ [dv]
       \<and> row_content (d[row_begin r := x] @ [dv])
            (r\<lparr>m_size := 2 ^ 31 + 2, m_capacity := 2 ^ 31 + 2\<rparr>)
           \<noteq> take 0 (row_content d r) @ [x] @ drop 0 (row_content d r)"
proof -
  let ?b = "row_begin r"
  let ?r' = "r\<lparr>m_size := 2 ^ 31 + 2, m_capacity := 2 ^ 31 + 2\<rparr>"
  let ?d' = "d[?b := x] @ [dv]"
  define s where "s = unat (m_size r)"
  have s2: "2 \<le> s" and s': "unat (m_size ?r') = Suc s"
    using assms(2) by (simp_all add: s_def)
  have len: "?b + s = length d"
    using assms(3) by (simp add: row_end_def row_begin_def s_def)
  have rb': "unat (m_begin_index ?r') = ?b" by (simp add: row_begin_def)
  have rc: "row_content d r = drop ?b d" using assms(3) by (rule tail_row_content)
  have "drop ?b d = d ! ?b # d ! (?b + 1) # drop (?b + 2) d"
    using len s2 by (simp add: Cons_nth_drop_Suc)
  then have rc2: "row_content d r = d ! ?b # d ! (?b + 1) # drop (?b + 2) d" using rc by simp
  have "row_content ?d' ?r' = take (Suc s) (drop ?b ?d')"
    unfolding row_content_def segment_def s' rb' ..
  also have "\<dots> = drop ?b ?d'" using len by simp
  also have "\<dots> = x # drop (Suc ?b) d @ [dv]"
    using len s2 by (simp add: upd_conv_take_nth_drop)
  finally have c': "row_content ?d' ?r' = x # tl (row_content d r) @ [dv]"
    by (simp add: rc drop_Suc tl_drop)
  have "insert_range dv ?b [x] d r = Inr (?d', ?r', ?b)"
    using insert_front_unmoved [OF assms(1-4), of dv x] by simp
  moreover have "row_content ?d' ?r' \<noteq> take 0 (row_content d r) @ [x] @ drop 0 (row_content d r)"
    unfolding c' using assms(5) by (simp add: rc2)
  ultimately show ?thesis using c' by simp
qed

text \<open>The row of a one followed by \<open>2 ^ 31\<close> twos, with a nine inserted at \<open>begin()\<close>.\<close>

theorem row_insert_beyond_int_counter_witness:
  "row_ok (1 # replicate (2 ^ 31) (2 :: int))
      \<lparr>m_begin_index = 0, m_size = 2 ^ 31 + 1, m_capacity = 2 ^ 31 + 1\<rparr>
   \<and> row_end \<lparr>m_begin_index = 0, m_size = 2 ^ 31 + 1, m_capacity = 2 ^ 31 + 1\<rparr>
        = length (1 # replicate (2 ^ 31) (2 :: int))
   \<and> row_content (1 # replicate (2 ^ 31) (2 :: int))
        \<lparr>m_begin_index = 0, m_size = 2 ^ 31 + 1, m_capacity = 2 ^ 31 + 1\<rparr>
        = 1 # replicate (2 ^ 31) 2
   \<and> insert_range 0 0 [9] (1 # replicate (2 ^ 31) (2 :: int))
        \<lparr>m_begin_index = 0, m_size = 2 ^ 31 + 1, m_capacity = 2 ^ 31 + 1\<rparr>
        = Inr (9 # replicate (2 ^ 31) 2 @ [0],
               \<lparr>m_begin_index = 0, m_size = 2 ^ 31 + 2, m_capacity = 2 ^ 31 + 2\<rparr>, 0)
   \<and> row_content (9 # replicate (2 ^ 31) (2 :: int) @ [0])
        \<lparr>m_begin_index = 0, m_size = 2 ^ 31 + 2, m_capacity = 2 ^ 31 + 2\<rparr>
        = 9 # replicate (2 ^ 31) 2 @ [0]
   \<and> row_content (9 # replicate (2 ^ 31) (2 :: int) @ [0])
        \<lparr>m_begin_index = 0, m_size = 2 ^ 31 + 2, m_capacity = 2 ^ 31 + 2\<rparr>
        \<noteq> 9 # 1 # replicate (2 ^ 31) 2"
proof -
  let ?d = "1 # replicate (2 ^ 31) (2 :: int)"
  let ?r = "\<lparr>m_begin_index = 0, m_size = 2 ^ 31 + 1, m_capacity = 2 ^ 31 + 1 :: size_t\<rparr>"
  have ok: "row_ok ?d ?r" by (simp add: row_ok_def)
  have sz: "m_size ?r = 2 ^ 31 + 1" by simp
  have tail: "row_end ?r = length ?d" by (simp add: row_end_def)
  have small: "length ?d < max_size" by (simp add: max_size_def)
  have ne: "?d ! row_begin ?r \<noteq> ?d ! (row_begin ?r + 1)" by (simp add: row_begin_def)
  have rb: "row_begin ?r = 0" by (simp add: row_begin_def)
  have rc: "row_content ?d ?r = ?d" unfolding tail_row_content [OF tail] rb by simp
  have "hd (replicate (2 ^ 31) (2 :: int) @ [0]) \<noteq> hd (1 # replicate (2 ^ 31) 2)"
    by (simp add: hd_append)
  then have ne2: "replicate (2 ^ 31) (2 :: int) @ [0] \<noteq> 1 # replicate (2 ^ 31) 2"
    by metis
  show ?thesis
    using ok tail rc ne2 row_insert_beyond_int_counter [OF ok sz tail small ne, of 0 9]
    unfolding rb rc by simp
qed

text \<open>
  \<^bold>\<open>C2\<close>.  Row \<open>push_back(v)\<close> should keep the row's elements and append \<open>v\<close>; a full
  row that is not the last occupant of the buffer should have its content relocated to the
  new tail.  On a full well-placed row of \<open>2 ^ 31 + 1\<close> elements whose span does not end at
  the end of the buffer, \<open>push_back(v)\<close> appends \<open>length + 1\<close> slots holding \<open>T()\<close>, calls
  \<open>move_desc\<close>, which moves none of the elements, and writes \<open>v\<close> into the last slot: the
  row then holds \<open>2 ^ 31 + 1\<close> copies of \<open>T()\<close> followed by \<open>v\<close>.  Where the old first
  element is not \<open>T()\<close> this is not the old content followed by \<open>v\<close>.
\<close>

theorem row_push_back_beyond_int_counter:
  fixes d :: "'a list"
  assumes "row_ok d r" and "m_size r = 2 ^ 31 + 1" and "m_capacity r = m_size r"
    and "row_end r \<noteq> length d" and "length d + 2 ^ 31 + 2 \<le> max_size"
    and "d ! row_begin r \<noteq> dv"
  shows "push_back dv v d r
           = Inr (d @ replicate (2 ^ 31 + 1) dv @ [v],
                  \<lparr>m_begin_index = of_nat (length d), m_size = 2 ^ 31 + 2,
                   m_capacity = 2 ^ 31 + 2\<rparr>)
       \<and> row_content (d @ replicate (2 ^ 31 + 1) dv @ [v])
            \<lparr>m_begin_index = of_nat (length d), m_size = 2 ^ 31 + 2, m_capacity = 2 ^ 31 + 2\<rparr>
           = replicate (2 ^ 31 + 1) dv @ [v]
       \<and> row_content (d @ replicate (2 ^ 31 + 1) dv @ [v])
            \<lparr>m_begin_index = of_nat (length d), m_size = 2 ^ 31 + 2, m_capacity = 2 ^ 31 + 2\<rparr>
           \<noteq> row_content d r @ [v]"
proof -
  let ?b = "row_begin r"
  let ?r' = "\<lparr>m_begin_index = of_nat (length d), m_size = 2 ^ 31 + 2 :: size_t,
              m_capacity = 2 ^ 31 + 2 :: size_t\<rparr>"
  define n :: nat where "n = 2 ^ 31"
  let ?d' = "d @ replicate (Suc n) dv @ [v]"
  have s: "unat (m_size r) = Suc n" and s': "unat (m_size ?r') = Suc (Suc n)"
    using assms(2) by (simp_all add: n_def)
  have b': "unat (m_begin_index ?r') = length d"
    using assms(5) by (simp add: unat_of_nat64 max_size_def)
  have len: "?b + Suc n \<le> length d"
    using assms(1,3) s by (simp add: row_ok_def row_begin_def)
  have c': "row_content ?d' ?r' = replicate (Suc n) dv @ [v]"
    unfolding row_content_def segment_def s' b' by simp
  have "drop ?b d = d ! ?b # drop (Suc ?b) d"
    using len by (simp add: Cons_nth_drop_Suc)
  then have rc: "row_content d r = d ! ?b # take n (drop (Suc ?b) d)"
    by (simp add: row_content_def segment_def row_begin_def s)
  have ne: "row_content ?d' ?r' \<noteq> row_content d r @ [v]"
    unfolding c' rc using assms(6) by simp
  have n': "Suc n = 2 ^ 31 + 1" by (simp add: n_def)
  show ?thesis
    using push_back_relocate_unmoved [OF assms(1-5), of dv v] c' ne
    unfolding n' by simp
qed

text \<open>The row of \<open>2 ^ 31 + 1\<close> ones, followed in the buffer by another element, after
  \<open>push_back(3)\<close>, with \<open>T()\<close> being 0.\<close>

theorem row_push_back_beyond_int_counter_witness:
  "row_ok (replicate (2 ^ 31 + 1) (1 :: int) @ [8])
      \<lparr>m_begin_index = 0, m_size = 2 ^ 31 + 1, m_capacity = 2 ^ 31 + 1\<rparr>
   \<and> row_end \<lparr>m_begin_index = 0, m_size = 2 ^ 31 + 1, m_capacity = 2 ^ 31 + 1\<rparr>
        \<noteq> length (replicate (2 ^ 31 + 1) (1 :: int) @ [8])
   \<and> row_content (replicate (2 ^ 31 + 1) (1 :: int) @ [8])
        \<lparr>m_begin_index = 0, m_size = 2 ^ 31 + 1, m_capacity = 2 ^ 31 + 1\<rparr>
        = replicate (2 ^ 31 + 1) 1
   \<and> push_back 0 3 (replicate (2 ^ 31 + 1) (1 :: int) @ [8])
        \<lparr>m_begin_index = 0, m_size = 2 ^ 31 + 1, m_capacity = 2 ^ 31 + 1\<rparr>
        = Inr ((replicate (2 ^ 31 + 1) 1 @ [8]) @ replicate (2 ^ 31 + 1) 0 @ [3],
               \<lparr>m_begin_index = 2 ^ 31 + 2, m_size = 2 ^ 31 + 2, m_capacity = 2 ^ 31 + 2\<rparr>)
   \<and> row_content ((replicate (2 ^ 31 + 1) (1 :: int) @ [8]) @ replicate (2 ^ 31 + 1) 0 @ [3])
        \<lparr>m_begin_index = 2 ^ 31 + 2, m_size = 2 ^ 31 + 2, m_capacity = 2 ^ 31 + 2\<rparr>
        = replicate (2 ^ 31 + 1) 0 @ [3]
   \<and> row_content ((replicate (2 ^ 31 + 1) (1 :: int) @ [8]) @ replicate (2 ^ 31 + 1) 0 @ [3])
        \<lparr>m_begin_index = 2 ^ 31 + 2, m_size = 2 ^ 31 + 2, m_capacity = 2 ^ 31 + 2\<rparr>
        \<noteq> replicate (2 ^ 31 + 1) 1 @ [3]"
proof -
  let ?d = "replicate (2 ^ 31 + 1) (1 :: int) @ [8]"
  let ?r = "\<lparr>m_begin_index = 0, m_size = 2 ^ 31 + 1, m_capacity = 2 ^ 31 + 1 :: size_t\<rparr>"
  have ok: "row_ok ?d ?r" by (simp add: row_ok_def)
  have sz: "m_size ?r = 2 ^ 31 + 1" and full: "m_capacity ?r = m_size ?r" by simp_all
  have nt: "row_end ?r \<noteq> length ?d" by (simp add: row_end_def)
  have small: "length ?d + 2 ^ 31 + 2 \<le> max_size" by (simp add: max_size_def)
  have ne: "?d ! row_begin ?r \<noteq> 0" by (simp add: row_begin_def nth_append)
  have rc: "row_content ?d ?r = replicate (2 ^ 31 + 1) 1"
    by (simp add: row_content_def segment_def)
  show ?thesis
    using ok nt rc row_push_back_beyond_int_counter [OF ok sz full nt small ne, of 3]
    unfolding rc by simp
qed

text \<open>
  \<^bold>\<open>C3\<close>.  Row \<open>erase(first, last)\<close> should leave the row holding its old prefix followed
  by its old suffix.  On a well-placed row of \<open>2 ^ 31 + 1\<close> elements,
  \<open>erase(begin(), begin() + 1)\<close> calls \<open>move_asc\<close> for the \<open>2 ^ 31\<close> elements behind the
  erased one, which moves none, and lowers the length by one: the buffer is untouched and
  the row holds its old elements but the last, instead of its old elements but the first.
  Where the first two elements differ the two are not the same.
\<close>

theorem row_erase_beyond_int_counter:
  fixes d :: "'a list"
  assumes "row_ok d r" and "m_size r = 2 ^ 31 + 1" and "length d \<le> max_size"
    and "d ! row_begin r \<noteq> d ! (row_begin r + 1)"
  shows "erase_range (row_begin r) (row_begin r + 1) d r
           = Inr (d, r\<lparr>m_size := 2 ^ 31\<rparr>, row_begin r)
       \<and> row_content d (r\<lparr>m_size := 2 ^ 31\<rparr>) = butlast (row_content d r)
       \<and> row_content d (r\<lparr>m_size := 2 ^ 31\<rparr>)
           \<noteq> take 0 (row_content d r) @ drop 1 (row_content d r)"
proof -
  let ?b = "row_begin r"
  let ?r' = "r\<lparr>m_size := 2 ^ 31\<rparr>"
  define n where "n = unat (m_size ?r')"
  have n1: "1 \<le> n" and s: "unat (m_size r) = Suc n"
    using assms(2) by (simp_all add: n_def)
  have "unat (m_size r) \<le> unat (m_capacity r)"
    using assms(1) by (simp add: row_ok_def word_le_nat_alt)
  then have len: "?b + Suc n \<le> length d"
    using assms(1) s by (simp add: row_ok_def row_begin_def)
  have rc: "row_content d r = take (Suc n) (drop ?b d)"
    by (simp add: row_content_def segment_def row_begin_def s)
  have rc': "row_content d ?r' = take n (drop ?b d)"
    unfolding row_content_def segment_def n_def row_begin_def by simp
  have bl: "row_content d ?r' = butlast (row_content d r)"
    unfolding rc rc' using len by (simp add: butlast_take)
  obtain m where m: "n = Suc m" using n1 by (cases n) auto
  have dr: "drop ?b d = d ! ?b # d ! (?b + 1) # drop (?b + 2) d"
    using len m by (simp add: Cons_nth_drop_Suc)
  have h1: "row_content d ?r' = d ! ?b # take m (d ! (?b + 1) # drop (?b + 2) d)"
    unfolding rc' m by (subst dr) simp
  have h2: "take 0 (row_content d r) @ drop 1 (row_content d r)
      = d ! (?b + 1) # take m (drop (?b + 2) d)"
    unfolding rc m by (subst dr) simp
  have neg: "to_int (m_size r - 1) \<le> 0" by (simp add: assms(2) to_int_def)
  have "erase_range ?b (?b + 1) d r = Inr (d, r\<lparr>m_size := m_size r - 1\<rparr>, ?b)"
    using assms(1,3) _ neg by (rule erase_first_unmoved) (simp add: assms(2))
  then have "erase_range ?b (?b + 1) d r = Inr (d, ?r', ?b)" by (simp add: assms(2))
  moreover have "row_content d ?r' \<noteq> take 0 (row_content d r) @ drop 1 (row_content d r)"
    unfolding h1 h2 using assms(4) by simp
  ultimately show ?thesis using bl by simp
qed

text \<open>The row of a one followed by \<open>2 ^ 31\<close> twos after \<open>erase(begin(), begin() + 1)\<close> still
  begins with the one.\<close>

theorem row_erase_beyond_int_counter_witness:
  "row_ok (1 # replicate (2 ^ 31) (2 :: int))
      \<lparr>m_begin_index = 0, m_size = 2 ^ 31 + 1, m_capacity = 2 ^ 31 + 1\<rparr>
   \<and> row_content (1 # replicate (2 ^ 31) (2 :: int))
        \<lparr>m_begin_index = 0, m_size = 2 ^ 31 + 1, m_capacity = 2 ^ 31 + 1\<rparr>
        = 1 # replicate (2 ^ 31) 2
   \<and> erase_range 0 1 (1 # replicate (2 ^ 31) (2 :: int))
        \<lparr>m_begin_index = 0, m_size = 2 ^ 31 + 1, m_capacity = 2 ^ 31 + 1\<rparr>
        = Inr (1 # replicate (2 ^ 31) 2,
               \<lparr>m_begin_index = 0, m_size = 2 ^ 31, m_capacity = 2 ^ 31 + 1\<rparr>, 0)
   \<and> row_content (1 # replicate (2 ^ 31) (2 :: int))
        \<lparr>m_begin_index = 0, m_size = 2 ^ 31, m_capacity = 2 ^ 31 + 1\<rparr>
        = 1 # replicate (2 ^ 31 - 1) 2
   \<and> row_content (1 # replicate (2 ^ 31) (2 :: int))
        \<lparr>m_begin_index = 0, m_size = 2 ^ 31, m_capacity = 2 ^ 31 + 1\<rparr>
        \<noteq> replicate (2 ^ 31) 2"
proof -
  let ?d = "1 # replicate (2 ^ 31) (2 :: int)"
  let ?r = "\<lparr>m_begin_index = 0, m_size = 2 ^ 31 + 1, m_capacity = 2 ^ 31 + 1 :: size_t\<rparr>"
  have ok: "row_ok ?d ?r" by (simp add: row_ok_def)
  have sz: "m_size ?r = 2 ^ 31 + 1" by simp
  have tail: "row_end ?r = length ?d" by (simp add: row_end_def)
  have small: "length ?d \<le> max_size" by (simp add: max_size_def)
  have ne: "?d ! row_begin ?r \<noteq> ?d ! (row_begin ?r + 1)" by (simp add: row_begin_def)
  have rb: "row_begin ?r = 0" by (simp add: row_begin_def)
  have rc: "row_content ?d ?r = ?d" unfolding tail_row_content [OF tail] rb by simp
  have bl: "butlast (replicate (2 ^ 31) (2 :: int)) = replicate (2 ^ 31 - 1) 2"
    by (simp add: butlast_conv_take)
  have "hd (1 # replicate (2 ^ 31 - 1) (2 :: int)) \<noteq> hd (replicate (2 ^ 31) 2)"
    by simp
  then have ne2: "1 # replicate (2 ^ 31 - 1) (2 :: int) \<noteq> replicate (2 ^ 31) 2"
    by metis
  show ?thesis
    using ok rc bl ne2 row_erase_beyond_int_counter [OF ok sz small ne]
    unfolding rb rc by simp
qed

text \<open>
  \<^bold>\<open>C4\<close>.  After \<open>compact()\<close> every row's capacity should equal its length, empty rows
  included.  The structure built by \<open>push_back({1, 2, 3})\<close>, \<open>push_back({4, 5})\<close> and
  \<open>v[0].clear()\<close> is compacted to the buffer \<open>[4, 5]\<close>, but its empty row 0 is passed over
  and keeps capacity 3 at offset 0; the next \<open>v[0].push_back(9)\<close> then takes the fast path
  and overwrites the first element of row 1.
\<close>

theorem compact_passes_over_empty_row:
  "and_then (push_back_row [1, 2, 3 :: int] vector2d_default) (\<lambda>v1.
     and_then (push_back_row [4, 5] v1) (on_row 0 clear))
     = Inr \<lparr>m_rows = [\<lparr>m_begin_index = 0, m_size = 0, m_capacity = 3\<rparr>,
                       \<lparr>m_begin_index = 3, m_size = 2, m_capacity = 2\<rparr>],
             m_data = [1, 2, 3, 4, 5]\<rparr>
   \<and> compact \<lparr>m_rows = [\<lparr>m_begin_index = 0, m_size = 0, m_capacity = 3\<rparr>,
                         \<lparr>m_begin_index = 3, m_size = 2, m_capacity = 2\<rparr>],
               m_data = [1, 2, 3, 4, 5 :: int]\<rparr>
     = Inr \<lparr>m_rows = [\<lparr>m_begin_index = 0, m_size = 0, m_capacity = 3\<rparr>,
                       \<lparr>m_begin_index = 0, m_size = 2, m_capacity = 2\<rparr>],
             m_data = [4, 5]\<rparr>
   \<and> on_row 0 (push_back 0 9)
       \<lparr>m_rows = [\<lparr>m_begin_index = 0, m_size = 0, m_capacity = 3\<rparr>,
                  \<lparr>m_begin_index = 0, m_size = 2, m_capacity = 2\<rparr>],
        m_data = [4, 5 :: int]\<rparr>
     = Inr \<lparr>m_rows = [\<lparr>m_begin_index = 0, m_size = 1, m_capacity = 3\<rparr>,
                       \<lparr>m_begin_index = 0, m_size = 2, m_capacity = 2\<rparr>],
             m_data = [9, 5]\<rparr>"
  by (simp add: push_back_row_def vector2d_default_def on_row_def clear_def compact_def
      nelement_def push_back_def vec_reserve_def emplace_back_def max_size_def data_size_def
      put_def empty_row_def row_begin_def row_end_def begin_index_def end_index_def
      shrink_to_fit_def update_def Let_def)

text \<open>
  \<^bold>\<open>C5\<close>.  Row \<open>reserve(n)\<close> with \<open>n\<close> above the capacity should set the capacity to \<open>n\<close>
  and keep the row's length and content, relocating the elements if the row is not the
  last occupant of the buffer.  On a well-placed non-empty row of capacity \<open>2 ^ 31 + 1\<close>
  whose elements do not end at the end of the buffer, \<open>reserve(n)\<close> appends \<open>n\<close> slots
  holding \<open>T()\<close>, calls \<open>move_desc\<close> for the \<open>2 ^ 31 + 1\<close> slots of the old span, which moves
  none, and places the row on the new slots: the row then holds copies of \<open>T()\<close> only.
  Where the old first element is not \<open>T()\<close> the content is not kept.
\<close>

theorem row_reserve_beyond_int_counter:
  fixes d :: "'a list"
  assumes "row_ok d r" and "m_capacity r = 2 ^ 31 + 1" and "m_capacity r < n"
    and "row_end r \<noteq> length d" and "length d + unat n \<le> max_size"
    and "m_size r \<noteq> 0" and "d ! row_begin r \<noteq> dv"
  shows "reserve dv n d r
           = Inr (d @ replicate (unat n) dv,
                  \<lparr>m_begin_index = of_nat (length d), m_size = m_size r, m_capacity = n\<rparr>)
       \<and> row_content (d @ replicate (unat n) dv)
            \<lparr>m_begin_index = of_nat (length d), m_size = m_size r, m_capacity = n\<rparr>
           = replicate (unat (m_size r)) dv
       \<and> row_content (d @ replicate (unat n) dv)
            \<lparr>m_begin_index = of_nat (length d), m_size = m_size r, m_capacity = n\<rparr>
           \<noteq> row_content d r"
proof -
  let ?b = "row_begin r"
  let ?r' = "\<lparr>m_begin_index = of_nat (length d), m_size = m_size r, m_capacity = n\<rparr>"
  let ?d' = "d @ replicate (unat n) dv"
  define s where "s = unat (m_size r)"
  have s0: "0 < s" using assms(6) by (simp add: s_def unat_gt_0)
  have sc: "s \<le> unat (m_capacity r)"
    using assms(1) by (simp add: s_def row_ok_def word_le_nat_alt)
  have sn: "s \<le> unat n" using sc assms(3) by (simp add: word_less_nat_alt)
  have len: "?b + s \<le> length d"
    using assms(1) sc by (simp add: row_ok_def row_begin_def)
  have b': "unat (m_begin_index ?r') = length d"
    using assms(5) by (simp add: unat_of_nat64 max_size_def)
  have c': "row_content ?d' ?r' = replicate s dv"
    unfolding row_content_def segment_def b' using sn by (simp add: s_def min_def)
  obtain m where m: "s = Suc m" using s0 by (cases s) auto
  have "drop ?b d = d ! ?b # drop (Suc ?b) d"
    using len m by (simp add: Cons_nth_drop_Suc)
  then have rc: "row_content d r = d ! ?b # take m (drop (Suc ?b) d)"
    using m by (simp add: row_content_def segment_def row_begin_def s_def)
  have ne: "row_content ?d' ?r' \<noteq> row_content d r"
    unfolding c' rc m using assms(7) by simp
  show ?thesis
    using reserve_relocate_unmoved [OF assms(1-5), of dv] c' ne
    unfolding s_def by simp
qed

text \<open>The row \<open>[1, 2]\<close> of capacity \<open>2 ^ 31 + 1\<close>, followed in the buffer by another element,
  after \<open>reserve(2 ^ 31 + 2)\<close>, with \<open>T()\<close> being 0.\<close>

theorem row_reserve_beyond_int_counter_witness:
  "row_ok (1 # 2 # replicate (2 ^ 31 - 1) (0 :: int) @ [8])
      \<lparr>m_begin_index = 0, m_size = 2, m_capacity = 2 ^ 31 + 1\<rparr>
   \<and> row_end \<lparr>m_begin_index = 0, m_size = 2, m_capacity = 2 ^ 31 + 1\<rparr>
        \<noteq> length (1 # 2 # replicate (2 ^ 31 - 1) (0 :: int) @ [8])
   \<and> row_content (1 # 2 # replicate (2 ^ 31 - 1) (0 :: int) @ [8])
        \<lparr>m_begin_index = 0, m_size = 2, m_capacity = 2 ^ 31 + 1\<rparr> = [1, 2]
   \<and> reserve 0 (2 ^ 31 + 2) (1 # 2 # replicate (2 ^ 31 - 1) (0 :: int) @ [8])
        \<lparr>m_begin_index = 0, m_size = 2, m_capacity = 2 ^ 31 + 1\<rparr>
        = Inr ((1 # 2 # replicate (2 ^ 31 - 1) 0 @ [8]) @ replicate (2 ^ 31 + 2) 0,
               \<lparr>m_begin_index = 2 ^ 31 + 2, m_size = 2, m_capacity = 2 ^ 31 + 2\<rparr>)
   \<and> row_content ((1 # 2 # replicate (2 ^ 31 - 1) (0 :: int) @ [8]) @ replicate (2 ^ 31 + 2) 0)
        \<lparr>m_begin_index = 2 ^ 31 + 2, m_size = 2, m_capacity = 2 ^ 31 + 2\<rparr> = [0, 0]
   \<and> row_content ((1 # 2 # replicate (2 ^ 31 - 1) (0 :: int) @ [8]) @ replicate (2 ^ 31 + 2) 0)
        \<lparr>m_begin_index = 2 ^ 31 + 2, m_size = 2, m_capacity = 2 ^ 31 + 2\<rparr> \<noteq> [1, 2]"
proof -
  let ?d = "1 # 2 # replicate (2 ^ 31 - 1) (0 :: int) @ [8]"
  let ?r = "\<lparr>m_begin_index = 0, m_size = 2, m_capacity = 2 ^ 31 + 1 :: size_t\<rparr>"
  have ok: "row_ok ?d ?r" by (simp add: row_ok_def)
  have cap: "m_capacity ?r = 2 ^ 31 + 1" and n: "m_capacity ?r < 2 ^ 31 + 2"
    and s0: "m_size ?r \<noteq> 0" by simp_all
  have nt: "row_end ?r \<noteq> length ?d" by (simp add: row_end_def)
  have small: "length ?d + unat (2 ^ 31 + 2 :: size_t) \<le> max_size" by (simp add: max_size_def)
  have ne: "?d ! row_begin ?r \<noteq> 0" by (simp add: row_begin_def)
  have rc: "row_content ?d ?r = [1, 2]"
    by (simp add: row_content_def segment_def)
  have two: "replicate 2 (0 :: int) = [0, 0]" by (simp add: numeral_2_eq_2)
  show ?thesis
    using ok nt rc two row_reserve_beyond_int_counter [OF ok cap n nt small s0 ne]
    unfolding rc by simp
qed

text \<open>
  \<^bold>\<open>C6\<close>.  Every row should satisfy \<open>start_offset + capacity \<le> buffer size\<close> in every
  state the public operations produce.  A row \<open>[1, 2, 3]\<close> of another structure keeps
  capacity 3 when \<open>erase\<close> shortens it to one element; \<open>resize(1, row)\<close> on a new
  structure with that row gives the new row capacity 3 in a buffer of one slot.  And
  \<open>compact()\<close> on the structure built by \<open>push_back({1, 2, 3})\<close> and \<open>v[0].clear()\<close>
  leaves row 0 with capacity 3 in an empty buffer.
\<close>

theorem span_invariant_broken:
  "erase_range 1 3 [1, 2, 3 :: int] \<lparr>m_begin_index = 0, m_size = 3, m_capacity = 3\<rparr>
     = Inr ([1, 2, 3], \<lparr>m_begin_index = 0, m_size = 1, m_capacity = 3\<rparr>, 1)
   \<and> resize_rows 1 [1, 2, 3 :: int] \<lparr>m_begin_index = 0, m_size = 1, m_capacity = 3\<rparr>
       vector2d_default
     = Inr \<lparr>m_rows = [\<lparr>m_begin_index = 0, m_size = 1, m_capacity = 3\<rparr>], m_data = [1]\<rparr>
   \<and> \<not> spans_inside
         \<lparr>m_rows = [\<lparr>m_begin_index = 0, m_size = 1, m_capacity = 3\<rparr>], m_data = [1 :: int]\<rparr>
   \<and> spans_inside (vector2d_default :: int vector2d)
   \<and> and_then (push_back_row [1, 2, 3 :: int] vector2d_default) (\<lambda>v1.
       and_then (on_row 0 clear v1) compact)
     = Inr \<lparr>m_rows = [\<lparr>m_begin_index = 0, m_size = 0, m_capacity = 3\<rparr>], m_data = []\<rparr>
   \<and> \<not> spans_inside
         \<lparr>m_rows = [\<lparr>m_begin_index = 0, m_size = 0, m_capacity = 3\<rparr>],
          m_data = ([] :: int list)\<rparr>"
  by (simp add: erase_range_def move_asc_def to_int_def resize_rows_def rows_size_def
      spans_inside_def push_back_row_def vector2d_default_def on_row_def clear_def compact_def
      nelement_def vec_reserve_def emplace_back_def max_size_def data_size_def
      empty_row_def row_begin_def row_end_def begin_index_def end_index_def
      update_def Let_def)

text \<open>
  \<^bold>\<open>C7\<close>.  Row \<open>insert\<close> followed by \<open>erase\<close> of the inserted range should restore the
  row's content and length.  On a well-placed row of \<open>2 ^ 31 + 1\<close> elements that ends at
  the end of the buffer, \<open>insert(begin(), x)\<close> writes \<open>x\<close> over the first element without
  moving the others, and \<open>erase\<close> of the range from the returned iterator to the next
  position lowers the length again without moving anything: the length is restored, but
  the row holds \<open>x\<close> in the place of its old first element.
\<close>

theorem round_trip_beyond_int_counter:
  fixes d :: "'a list"
  assumes "row_ok d r" and "m_size r = 2 ^ 31 + 1" and "row_end r = length d"
    and "length d < max_size" and "x \<noteq> d ! row_begin r"
  shows "insert_range dv (row_begin r) [x] d r
           = Inr (d[row_begin r := x] @ [dv], r\<lparr>m_size := 2 ^ 31 + 2, m_capacity := 2 ^ 31 + 2\<rparr>,
                  row_begin r)
       \<and> erase_range (row_begin r) (row_begin r + 1) (d[row_begin r := x] @ [dv])
            (r\<lparr>m_size := 2 ^ 31 + 2, m_capacity := 2 ^ 31 + 2\<rparr>)
           = Inr (d[row_begin r := x] @ [dv], r\<lparr>m_capacity := 2 ^ 31 + 2\<rparr>, row_begin r)
       \<and> row_content (d[row_begin r := x] @ [dv]) (r\<lparr>m_capacity := 2 ^ 31 + 2\<rparr>)
           = x # tl (row_content d r)
       \<and> row_content (d[row_begin r := x] @ [dv]) (r\<lparr>m_capacity := 2 ^ 31 + 2\<rparr>)
           \<noteq> row_content d r"
proof -
  let ?b = "row_begin r"
  let ?r1 = "r\<lparr>m_size := 2 ^ 31 + 2, m_capacity := 2 ^ 31 + 2\<rparr>"
  let ?r2 = "r\<lparr>m_capacity := 2 ^ 31 + 2\<rparr>"
  let ?d1 = "d[?b := x] @ [dv]"
  define s where "s = unat (m_size r)"
  have s1: "1 \<le> s" and s': "unat (m_size ?r1) = Suc s"
    using assms(2) by (simp_all add: s_def)
  have len: "?b + s = length d"
    using assms(3) by (simp add: row_end_def row_begin_def s_def)
  have ins: "insert_range dv ?b [x] d r = Inr (?d1, ?r1, ?b)"
    using insert_front_unmoved [OF assms(1-4), of dv x] by simp
  have ok1: "row_ok ?d1 ?r1"
    using len s' by (simp add: row_ok_def row_begin_def)
  have small1: "length ?d1 \<le> max_size" using assms(4) by simp
  have neg: "to_int (m_size ?r1 - 1) \<le> 0" by (simp add: to_int_def)
  have "erase_range (row_begin ?r1) (row_begin ?r1 + 1) ?d1 ?r1
      = Inr (?d1, ?r1\<lparr>m_size := m_size ?r1 - 1\<rparr>, row_begin ?r1)"
    using ok1 small1 _ neg by (rule erase_first_unmoved) simp
  moreover have "?r1\<lparr>m_size := m_size ?r1 - 1\<rparr> = r\<lparr>m_size := m_size r, m_capacity := 2 ^ 31 + 2\<rparr>"
    by (simp add: assms(2))
  then have "?r1\<lparr>m_size := m_size ?r1 - 1\<rparr> = ?r2" by simp
  moreover have "row_begin ?r1 = ?b" by (simp add: row_begin_def)
  ultimately have er: "erase_range ?b (?b + 1) ?d1 ?r1 = Inr (?d1, ?r2, ?b)" by simp
  have rc: "row_content d r = drop ?b d" using assms(3) by (rule tail_row_content)
  have dr: "drop ?b d = d ! ?b # drop (Suc ?b) d"
    using len s1 by (simp add: Cons_nth_drop_Suc)
  have "row_content ?d1 ?r2 = take s (drop ?b ?d1)"
    by (simp add: row_content_def segment_def row_begin_def s_def)
  also have "\<dots> = take s (x # drop (Suc ?b) d @ [dv])"
    using len s1 by (simp add: upd_conv_take_nth_drop)
  also have "\<dots> = x # drop (Suc ?b) d"
    using len s1 by (cases s) simp_all
  finally have c2: "row_content ?d1 ?r2 = x # tl (row_content d r)"
    by (simp add: rc drop_Suc tl_drop)
  have ne: "row_content ?d1 ?r2 \<noteq> row_content d r"
    unfolding c2 using assms(5) by (simp add: rc dr)
  show ?thesis using ins er c2 ne by simp
qed

text \<open>The row of a one followed by \<open>2 ^ 31\<close> twos, with a nine inserted at \<open>begin()\<close> and
  erased again, begins with the nine.\<close>

theorem round_trip_beyond_int_counter_witness:
  "row_ok (1 # replicate (2 ^ 31) (2 :: int))
      \<lparr>m_begin_index = 0, m_size = 2 ^ 31 + 1, m_capacity = 2 ^ 31 + 1\<rparr>
   \<and> row_end \<lparr>m_begin_index = 0, m_size = 2 ^ 31 + 1, m_capacity = 2 ^ 31 + 1\<rparr>
        = length (1 # replicate (2 ^ 31) (2 :: int))
   \<and> row_content (1 # replicate (2 ^ 31) (2 :: int))
        \<lparr>m_begin_index = 0, m_size = 2 ^ 31 + 1, m_capacity = 2 ^ 31 + 1\<rparr>
        = 1 # replicate (2 ^ 31) 2
   \<and> insert_range 0 0 [9] (1 # replicate (2 ^ 31) (2 :: int))
        \<lparr>m_begin_index = 0, m_size = 2 ^ 31 + 1, m_capacity = 2 ^ 31 + 1\<rparr>
        = Inr (9 # replicate (2 ^ 31) 2 @ [0],
               \<lparr>m_begin_index = 0, m_size = 2 ^ 31 + 2, m_capacity = 2 ^ 31 + 2\<rparr>, 0)
   \<and> erase_range 0 1 (9 # replicate (2 ^ 31) (2 :: int) @ [0])
        \<lparr>m_begin_index = 0, m_size = 2 ^ 31 + 2, m_capacity = 2 ^ 31 + 2\<rparr>
        = Inr (9 # replicate (2 ^ 31) 2 @ [0],
               \<lparr>m_begin_index = 0, m_size = 2 ^ 31 + 1, m_capacity = 2 ^ 31 + 2\<rparr>, 0)
   \<and> row_content (9 # replicate (2 ^ 31) (2 :: int) @ [0])
        \<lparr>m_begin_index = 0, m_size = 2 ^ 31 + 1, m_capacity = 2 ^ 31 + 2\<rparr>
        = 9 # replicate (2 ^ 31) 2
   \<and> row_content (9 # replicate (2 ^ 31) (2 :: int) @ [0])
        \<lparr>m_begin_index = 0, m_size = 2 ^ 31 + 1, m_capacity = 2 ^ 31 + 2\<rparr>
        \<noteq> 1 # replicate (2 ^ 31) 2"
proof -
  let ?d = "1 # replicate (2 ^ 31) (2 :: int)"
  let ?r = "\<lparr>m_begin_index = 0, m_size = 2 ^ 31 + 1, m_capacity = 2 ^ 31 + 1 :: size_t\<rparr>"
  have ok: "row_ok ?d ?r" by (simp add: row_ok_def)
  have sz: "m_size ?r = 2 ^ 31 + 1" by simp
  have tail: "row_end ?r = length ?d" by (simp add: row_end_def)
  have small: "length ?d < max_size" by (simp add: max_size_def)
  have rb: "row_begin ?r = 0" by (simp add: row_begin_def)
  have ne: "9 \<noteq> ?d ! row_begin ?r" by (simp add: row_begin_def)
  have rc: "row_content ?d ?r = ?d" unfolding tail_row_content [OF tail] rb by simp
  show ?thesis
    using ok tail rc round_trip_beyond_int_counter [OF ok sz tail small ne, of 0]
    unfolding rb rc by simp
qed

text \<open>
  \<^bold>\<open>C8\<close>.  A row \<open>erase(first, last)\<close> with \<open>last\<close> before \<open>first\<close> should fail with the
  invalid-range error.  On the row \<open>[1, 2, 3, 4, 5]\<close>, \<open>erase(begin() + 3, begin() + 1)\<close>
  passes the test \<open>range < 0\<close>, \<open>range\<close> being a \<open>size_t\<close>, and goes on into the destroy
  loop, which walks from \<open>begin() + 3\<close> past the end of the buffer.
\<close>

theorem erase_reversed_range_not_rejected:
  "erase_range 3 1 [1, 2, 3, 4, 5 :: int] \<lparr>m_begin_index = 0, m_size = 5, m_capacity = 5\<rparr>
     = Inl Undefined"
  by (simp add: erase_range_def row_begin_def Let_def)

text \<open>
  \<^bold>\<open>C9\<close>.  A structure-level \<open>insert\<close> at a row position beyond the row count should
  fail with the out-of-range error.  \<open>insert(begin() + 5, row)\<close> on a structure of one row
  makes no check: it copies the row's elements to the buffer and calls
  \<open>std::vector::insert\<close> with an iterator beyond \<open>end()\<close>.
\<close>

theorem insert_row_position_not_checked:
  "insert_row 5 [7, 8 :: int] \<lparr>m_begin_index = 0, m_size = 2, m_capacity = 2\<rparr>
     \<lparr>m_rows = [\<lparr>m_begin_index = 0, m_size = 3, m_capacity = 3\<rparr>], m_data = [1, 2, 3]\<rparr>
     = Inl Undefined"
  by (simp add: insert_row_def row_new_def update_def vec_reserve_def emplace_back_def
      max_size_def data_size_def row_begin_def row_end_def Let_def)

text \<open>
  \<^bold>\<open>C10\<close>.  Row \<open>pop_back()\<close> on a non-empty row changes nothing but the length, which
  is one less.  On an empty row nothing is checked and nothing is thrown: either
  \<open>*(end() - 1)\<close> lies outside the buffer, or the call returns with length and capacity
  wrapped around to \<open>2 ^ 64 - 1\<close>.
\<close>

theorem row_pop_back:
  fixes d :: "'a list"
  shows "(row_ok d r \<and> m_size r \<noteq> 0 \<longrightarrow>
            pop_back d r = Inr (d, r\<lparr>m_size := m_size r - 1\<rparr>)
            \<and> unat (m_size r - 1) = unat (m_size r) - 1)
       \<and> (m_size r = 0 \<longrightarrow>
            pop_back d r
              = (if 0 < unat (m_begin_index r) \<and> unat (m_begin_index r) - 1 < length d
                 then Inr (d, r\<lparr>m_size := - 1, m_capacity := - 1\<rparr>) else Inl Undefined))"
  using pop_back_nonempty [of d r] pop_back_empty [of r d]
  by (simp add: unat_minus_one)

theorem row_pop_back_witness:
  "row_ok [7, 8 :: int] \<lparr>m_begin_index = 0, m_size = 2, m_capacity = 2\<rparr>
   \<and> pop_back [7, 8 :: int] \<lparr>m_begin_index = 0, m_size = 2, m_capacity = 2\<rparr>
        = Inr ([7, 8], \<lparr>m_begin_index = 0, m_size = 1, m_capacity = 2\<rparr>)
   \<and> pop_back [7, 8 :: int] \<lparr>m_begin_index = 2, m_size = 0, m_capacity = 0\<rparr>
        = Inr ([7, 8], \<lparr>m_begin_index = 2, m_size = 18446744073709551615,
                       m_capacity = 18446744073709551615\<rparr>)
   \<and> pop_back [7, 8 :: int] \<lparr>m_begin_index = 0, m_size = 0, m_capacity = 0\<rparr> = Inl Undefined"
proof -
  have ok: "row_ok [7, 8 :: int] \<lparr>m_begin_index = 0, m_size = 2, m_capacity = 2\<rparr>"
    by (simp add: row_ok_def)
  show ?thesis
    using ok
      row_pop_back [of "[7, 8 :: int]" "\<lparr>m_begin_index = 0, m_size = 2, m_capacity = 2\<rparr>"]
      row_pop_back [of "[7, 8 :: int]" "\<lparr>m_begin_index = 2, m_size = 0, m_capacity = 0\<rparr>"]
      row_pop_back [of "[7, 8 :: int]" "\<lparr>m_begin_index = 0, m_size = 0, m_capacity = 0\<rparr>"]
    by simp
qed

end
